theory Spec2Isabelle
  imports
    Complex_Main
    "HOL-Library.Word"
    "HOL-Library.Signed_Division"
    "HOL-Library.Log_Nat"
    "HOL-Library.Monad_Syntax"
begin

unbundle bit_operations_syntax

section \<open>Embedding of \<^verbatim>\<open>include/godot_cpp/core/math.hpp\<close>\<close>

subsection \<open>Powers of two on \<^verbatim>\<open>unsigned int\<close>\<close>

text \<open>
  \<^verbatim>\<open>unsigned int\<close> is a 32-bit word: \<open>+\<close> and \<open>-\<close> wrap modulo \<open>2 ^ 32\<close>,
  \<^verbatim>\<open>x >> n\<close> is \<open>drop_bit n x\<close>, \<^verbatim>\<open>|\<close> is \<open>OR\<close>. The compound assignments of the
  source are the successive bindings of \<open>x\<close>.
\<close>

type_synonym uint = "32 word"

definition next_power_of_2 :: "uint \<Rightarrow> uint" where
  "next_power_of_2 x0 =
     (if x0 = 0 then 0
      else
        let x = x0 - 1;
            x = x OR drop_bit 1 x;
            x = x OR drop_bit 2 x;
            x = x OR drop_bit 4 x;
            x = x OR drop_bit 8 x;
            x = x OR drop_bit 16 x
        in x + 1)"

definition previous_power_of_2 :: "uint \<Rightarrow> uint" where
  "previous_power_of_2 x0 =
     (let x = x0 OR drop_bit 1 x0;
          x = x OR drop_bit 2 x;
          x = x OR drop_bit 4 x;
          x = x OR drop_bit 8 x;
          x = x OR drop_bit 16 x
      in x - drop_bit 1 x)"

definition closest_power_of_2 :: "uint \<Rightarrow> uint" where
  "closest_power_of_2 x =
     (let nx = next_power_of_2 x;
          px = previous_power_of_2 x
      in if (nx - x) > (x - px) then px else nx)"

text \<open>
  The five shift-or steps that both functions share, named for the proofs only: every bit
  at or below the highest set bit of \<open>w\<close> becomes set.
\<close>

definition smear :: "uint \<Rightarrow> uint" where
  "smear w =
     (let x = w OR drop_bit 1 w;
          x = x OR drop_bit 2 x;
          x = x OR drop_bit 4 x;
          x = x OR drop_bit 8 x;
          x = x OR drop_bit 16 x
      in x)"

text \<open>
  The loop of \<^verbatim>\<open>get_shift_from_power_of_2\<close> tries \<open>i = 0, \<dots>, 31\<close> in turn and returns
  the first \<open>i\<close> with \<^verbatim>\<open>p_bits == (unsigned int)(1 << i)\<close>, or \<open>- 1\<close> after the last one.
\<close>

definition get_shift_from_power_of_2 :: "uint \<Rightarrow> int" where
  "get_shift_from_power_of_2 p_bits =
     (case find (\<lambda>i. p_bits = push_bit i 1) [0..<32] of
        Some i \<Rightarrow> int i
      | None \<Rightarrow> - 1)"

subsection \<open>Integer wrap on \<^verbatim>\<open>int64_t\<close>\<close>

text \<open>
  \<^verbatim>\<open>int64_t\<close> is a 64-bit word read in two's complement by \<open>sint\<close>. Signed overflow of
  \<^verbatim>\<open>+\<close> and \<^verbatim>\<open>-\<close> is undefined in C++; the model takes the wrap-around that
  two's-complement hardware performs. \<open>int64_rem\<close> is the operator \<^verbatim>\<open>%\<close>, the remainder of
  the division that truncates towards zero (\<open>smod\<close> on \<open>int\<close>). It has no value in two
  cases, which are kept apart: the divisor is zero, or the dividend is the least 64-bit
  integer and the divisor is \<open>- 1\<close>, where the quotient does not fit the type (undefined
  in C++; the division instruction traps, as it does for a zero divisor).
\<close>

type_synonym int64_t = "64 word"

datatype trap = DivideByZero | DivideOverflow

definition int64_rem :: "int64_t \<Rightarrow> int64_t \<Rightarrow> trap + int64_t" where
  "int64_rem a b =
     (if b = 0 then Inl DivideByZero
      else if sint a = - (2 ^ 63) \<and> sint b = - 1 then Inl DivideOverflow
      else Inr (word_of_int (sint a smod sint b)))"

definition wrapi :: "int64_t \<Rightarrow> int64_t \<Rightarrow> int64_t \<Rightarrow> trap + int64_t" where
  "wrapi value p_min p_max =
     (let range = p_max - p_min
      in if range = 0 then Inr p_min
         else
           case int64_rem (value - p_min) range of
             Inl e \<Rightarrow> Inl e
           | Inr r1 \<Rightarrow>
               (case int64_rem (r1 + range) range of
                  Inl e \<Rightarrow> Inl e
                | Inr r2 \<Rightarrow> Inr (p_min + r2)))"

subsection \<open>Scalars\<close>

text \<open>
  A \<^verbatim>\<open>double\<close> or \<^verbatim>\<open>float\<close> is an IEEE-754 value: NaN, an infinity or a finite real
  number (the zero of this model has no sign).
\<close>

datatype scalar = NaN | NegInf | Fin real | PosInf

text \<open>
  An arithmetic operation on finite values computes the exact real result, rounds it to
  the format, and yields an infinity when the rounded magnitude exceeds the largest finite
  number of the format; each operation rounds once. The format is a parameter of every
  function that rounds:

  \<^item> \<open>Binary64\<close> is \<^verbatim>\<open>double\<close> and \<open>Binary32\<close> is \<^verbatim>\<open>float\<close>, rounding to nearest with
    ties to the even significand, subnormal numbers included;
  \<^item> \<open>Exact\<close> rounds nothing and never overflows: the arithmetic of the reals.
\<close>

datatype format = Exact | Binary32 | Binary64

text \<open>
  \<open>rint\<close> is the nearest integer, ties to even. \<open>ilog2 a\<close> is the exponent \<open>e\<close> of the
  binade \<open>2 ^ e \<le> a < 2 ^ (e + 1)\<close> of a positive \<open>a\<close>. With \<open>p\<close> significand bits and
  least exponent \<open>emin\<close>, a nonzero \<open>x\<close> is rounded to the nearest multiple of the spacing
  \<open>2 ^ (e - (p - 1))\<close> of its binade, and of \<open>2 ^ (emin - (p - 1))\<close> in the subnormal
  range below \<open>2 ^ emin\<close>.
\<close>

definition rint :: "real \<Rightarrow> int" where
  "rint x =
     (let f = \<lfloor>x\<rfloor>; d = x - of_int f
      in if d < 1/2 then f else if 1/2 < d then f + 1 else if even f then f else f + 1)"

definition ilog2 :: "real \<Rightarrow> int" where
  "ilog2 a = (if 1 \<le> a then bitlen \<lfloor>a\<rfloor> - 1 else - bitlen (\<lceil>1 / a\<rceil> - 1))"

definition round_ieee :: "nat \<Rightarrow> int \<Rightarrow> real \<Rightarrow> real" where
  "round_ieee p emin x =
     (if x = 0 then 0
      else
        let e = max (ilog2 \<bar>x\<bar>) emin;
            q = 2 powi (e - (int p - 1))
        in of_int (rint (x / q)) * q)"

fun rnd :: "format \<Rightarrow> real \<Rightarrow> real" where
  "rnd Exact x = x"
| "rnd Binary32 x = round_ieee 24 (- 126) x"
| "rnd Binary64 x = round_ieee 53 (- 1022) x"

text \<open>Whether a rounded result lies beyond the largest finite number of the format.\<close>

fun huge :: "format \<Rightarrow> real \<Rightarrow> bool" where
  "huge Exact r = False"
| "huge Binary32 r = ((2 ^ 24 - 1) * 2 ^ 104 < \<bar>r\<bar>)"
| "huge Binary64 r = ((2 ^ 53 - 1) * 2 ^ 971 < \<bar>r\<bar>)"

definition fl :: "format \<Rightarrow> real \<Rightarrow> scalar" where
  "fl f x =
     (let r = rnd f x
      in if huge f r then (if 0 < r then PosInf else NegInf) else Fin r)"

text \<open>The comparisons \<^verbatim>\<open>==\<close> and \<^verbatim>\<open><\<close>, false whenever an operand is NaN.\<close>

fun ieee_eq :: "scalar \<Rightarrow> scalar \<Rightarrow> bool" where
  "ieee_eq (Fin x) (Fin y) = (x = y)"
| "ieee_eq PosInf PosInf = True"
| "ieee_eq NegInf NegInf = True"
| "ieee_eq _ _ = False"

fun ieee_lt :: "scalar \<Rightarrow> scalar \<Rightarrow> bool" where
  "ieee_lt (Fin x) (Fin y) = (x < y)"
| "ieee_lt NegInf (Fin y) = True"
| "ieee_lt NegInf PosInf = True"
| "ieee_lt (Fin x) PosInf = True"
| "ieee_lt _ _ = False"

text \<open>The absolute value and the unary minus are exact.\<close>

fun ieee_abs :: "scalar \<Rightarrow> scalar" where
  "ieee_abs (Fin x) = Fin \<bar>x\<bar>"
| "ieee_abs NegInf = PosInf"
| "ieee_abs PosInf = PosInf"
| "ieee_abs NaN = NaN"

fun ieee_neg :: "scalar \<Rightarrow> scalar" where
  "ieee_neg (Fin x) = Fin (- x)"
| "ieee_neg NegInf = PosInf"
| "ieee_neg PosInf = NegInf"
| "ieee_neg NaN = NaN"

fun ieee_add :: "format \<Rightarrow> scalar \<Rightarrow> scalar \<Rightarrow> scalar" where
  "ieee_add f (Fin x) (Fin y) = fl f (x + y)"
| "ieee_add f NaN _ = NaN"
| "ieee_add f _ NaN = NaN"
| "ieee_add f PosInf NegInf = NaN"
| "ieee_add f NegInf PosInf = NaN"
| "ieee_add f PosInf _ = PosInf"
| "ieee_add f NegInf _ = NegInf"
| "ieee_add f (Fin x) PosInf = PosInf"
| "ieee_add f (Fin x) NegInf = NegInf"

text \<open>\<open>a - b\<close> is \<open>a + (- b)\<close> in IEEE-754.\<close>

definition ieee_sub :: "format \<Rightarrow> scalar \<Rightarrow> scalar \<Rightarrow> scalar" where
  "ieee_sub f a b = ieee_add f a (ieee_neg b)"

fun ieee_mul :: "format \<Rightarrow> scalar \<Rightarrow> scalar \<Rightarrow> scalar" where
  "ieee_mul f (Fin x) (Fin y) = fl f (x * y)"
| "ieee_mul f NaN _ = NaN"
| "ieee_mul f _ NaN = NaN"
| "ieee_mul f (Fin x) PosInf = (if x = 0 then NaN else if 0 < x then PosInf else NegInf)"
| "ieee_mul f (Fin x) NegInf = (if x = 0 then NaN else if 0 < x then NegInf else PosInf)"
| "ieee_mul f PosInf (Fin y) = (if y = 0 then NaN else if 0 < y then PosInf else NegInf)"
| "ieee_mul f NegInf (Fin y) = (if y = 0 then NaN else if 0 < y then NegInf else PosInf)"
| "ieee_mul f PosInf PosInf = PosInf"
| "ieee_mul f NegInf NegInf = PosInf"
| "ieee_mul f PosInf NegInf = NegInf"
| "ieee_mul f NegInf PosInf = NegInf"

text \<open>
  The quotient. A finite nonzero number divided by zero is an infinity, with the sign of
  the dividend since the zero of the model is the positive one.
\<close>

fun ieee_div :: "format \<Rightarrow> scalar \<Rightarrow> scalar \<Rightarrow> scalar" where
  "ieee_div f (Fin x) (Fin y) =
     (if y = 0 then (if x = 0 then NaN else if 0 < x then PosInf else NegInf)
      else fl f (x / y))"
| "ieee_div f NaN _ = NaN"
| "ieee_div f _ NaN = NaN"
| "ieee_div f (Fin x) PosInf = Fin 0"
| "ieee_div f (Fin x) NegInf = Fin 0"
| "ieee_div f PosInf (Fin y) = (if 0 \<le> y then PosInf else NegInf)"
| "ieee_div f NegInf (Fin y) = (if 0 \<le> y then NegInf else PosInf)"
| "ieee_div f PosInf PosInf = NaN"
| "ieee_div f PosInf NegInf = NaN"
| "ieee_div f NegInf PosInf = NaN"
| "ieee_div f NegInf NegInf = NaN"

text \<open>
  \<^verbatim>\<open>Math::fmod\<close> is the C library's \<^verbatim>\<open>fmod(x, y)\<close>: \<open>x - n * y\<close> for the quotient \<open>x / y\<close>
  truncated towards zero, which IEEE arithmetic computes without rounding; NaN for
  \<open>y = 0\<close> and for an infinite \<open>x\<close>, and \<open>x\<close> itself for an infinite \<open>y\<close>.
\<close>

definition trunc :: "real \<Rightarrow> int" where
  "trunc q = (if 0 \<le> q then \<lfloor>q\<rfloor> else \<lceil>q\<rceil>)"

fun fmod :: "scalar \<Rightarrow> scalar \<Rightarrow> scalar" where
  "fmod (Fin x) (Fin y) = (if y = 0 then NaN else Fin (x - of_int (trunc (x / y)) * y))"
| "fmod (Fin x) PosInf = Fin x"
| "fmod (Fin x) NegInf = Fin x"
| "fmod _ _ = NaN"

text \<open>
  \<^verbatim>\<open>Math_PI\<close> and \<^verbatim>\<open>Math_TAU\<close> are decimal literals; a function that uses one takes it
  rounded to its format.
\<close>

definition Math_PI :: real where
  "Math_PI = 3.1415926535897932384626433833"

definition Math_TAU :: real where
  "Math_TAU = 6.2831853071795864769252867666"


definition fposmodp :: "format \<Rightarrow> scalar \<Rightarrow> scalar \<Rightarrow> scalar" where
  "fposmodp f p_x p_y =
     (let v = fmod p_x p_y;
          v = (if ieee_lt v (Fin 0) then ieee_add f v p_y else v);
          v = ieee_add f v (Fin 0)
      in v)"

definition lerp :: "format \<Rightarrow> scalar \<Rightarrow> scalar \<Rightarrow> scalar \<Rightarrow> scalar" where
  "lerp f minv maxv t = ieee_add f minv (ieee_mul f t (ieee_sub f maxv minv))"


subsection \<open>Barry-Goldman interpolation\<close>

text \<open>
  A division of \<^verbatim>\<open>cubic_interpolate_in_time\<close>. The function is \<open>None\<close> when it divides
  by a denominator that compares equal to zero, so that the absence of such a division is
  a property of its result; any other quotient is the IEEE one.
\<close>

definition fdiv :: "format \<Rightarrow> scalar \<Rightarrow> scalar \<Rightarrow> scalar option" where
  "fdiv f a b = (if ieee_eq b (Fin 0) then None else Some (ieee_div f a b))"

text \<open>
  The third argument of each \<^verbatim>\<open>Math::lerp\<close> call of \<^verbatim>\<open>cubic_interpolate_in_time\<close>, in
  the order of the source: the conditional expressions that yield \<open>a1\<close>, \<open>a2\<close>, \<open>a3\<close>,
  \<open>b1\<close> and \<open>b2\<close>. The returned blend uses the expression of \<open>a2\<close> again.
\<close>

definition ratio_a1 :: "format \<Rightarrow> scalar \<Rightarrow> scalar \<Rightarrow> scalar option" where
  "ratio_a1 f t p_pre_t =
     (if ieee_eq p_pre_t (Fin 0) then Some (Fin 0)
      else fdiv f (ieee_sub f t p_pre_t) (ieee_neg p_pre_t))"

definition ratio_a2 :: "format \<Rightarrow> scalar \<Rightarrow> scalar \<Rightarrow> scalar option" where
  "ratio_a2 f t p_to_t =
     (if ieee_eq p_to_t (Fin 0) then Some (Fin (1/2)) else fdiv f t p_to_t)"

definition ratio_a3 :: "format \<Rightarrow> scalar \<Rightarrow> scalar \<Rightarrow> scalar \<Rightarrow> scalar option" where
  "ratio_a3 f t p_to_t p_post_t =
     (if ieee_eq (ieee_sub f p_post_t p_to_t) (Fin 0) then Some (Fin 1)
      else fdiv f (ieee_sub f t p_to_t) (ieee_sub f p_post_t p_to_t))"

definition ratio_b1 :: "format \<Rightarrow> scalar \<Rightarrow> scalar \<Rightarrow> scalar \<Rightarrow> scalar option" where
  "ratio_b1 f t p_to_t p_pre_t =
     (if ieee_eq (ieee_sub f p_to_t p_pre_t) (Fin 0) then Some (Fin 0)
      else fdiv f (ieee_sub f t p_pre_t) (ieee_sub f p_to_t p_pre_t))"

definition ratio_b2 :: "format \<Rightarrow> scalar \<Rightarrow> scalar \<Rightarrow> scalar option" where
  "ratio_b2 f t p_post_t =
     (if ieee_eq p_post_t (Fin 0) then Some (Fin 1) else fdiv f t p_post_t)"

definition cubic_interpolate_in_time ::
  "format \<Rightarrow> scalar \<Rightarrow> scalar \<Rightarrow> scalar \<Rightarrow> scalar \<Rightarrow> scalar \<Rightarrow> scalar \<Rightarrow> scalar \<Rightarrow> scalar
     \<Rightarrow> scalar option" where
  "cubic_interpolate_in_time f p_from p_to p_pre p_post p_weight p_to_t p_pre_t p_post_t =
     do {
       let t = lerp f (Fin 0) p_to_t p_weight;
       w_a1 \<leftarrow> ratio_a1 f t p_pre_t;
       let a1 = lerp f p_pre p_from w_a1;
       w_a2 \<leftarrow> ratio_a2 f t p_to_t;
       let a2 = lerp f p_from p_to w_a2;
       w_a3 \<leftarrow> ratio_a3 f t p_to_t p_post_t;
       let a3 = lerp f p_to p_post w_a3;
       w_b1 \<leftarrow> ratio_b1 f t p_to_t p_pre_t;
       let b1 = lerp f a1 a2 w_b1;
       w_b2 \<leftarrow> ratio_b2 f t p_post_t;
       let b2 = lerp f a2 a3 w_b2;
       w_r \<leftarrow> ratio_a2 f t p_to_t;
       Some (lerp f b1 b2 w_r)
     }"

subsection \<open>Approximate comparison\<close>

text \<open>
  \<^verbatim>\<open>CMP_EPSILON\<close> is the \<^verbatim>\<open>float\<close> literal \<^verbatim>\<open>0.00001f\<close> whatever the build: the decimal
  rounded to \<open>Binary32\<close>, a value that the \<^verbatim>\<open>double\<close> overloads take unchanged.
  \<^verbatim>\<open>UNIT_EPSILON\<close> is the one constant under \<^verbatim>\<open>#ifdef PRECISE_MATH_CHECKS\<close>, a \<^verbatim>\<open>double\<close>
  literal; its argument says whether the macro is defined. No function of the file uses
  \<^verbatim>\<open>UNIT_EPSILON\<close>.
\<close>

definition CMP_EPSILON :: real where
  "CMP_EPSILON = rnd Binary32 0.00001"

definition UNIT_EPSILON :: "bool \<Rightarrow> real" where
  "UNIT_EPSILON PRECISE_MATH_CHECKS =
     (if PRECISE_MATH_CHECKS then rnd Binary64 0.00001 else rnd Binary64 0.001)"

text \<open>
  The two overloads of \<open>is_equal_approx\<close> on \<^verbatim>\<open>float\<close> and \<^verbatim>\<open>double\<close> differ in the format
  of the product and of the difference only.
\<close>

definition is_equal_approx :: "format \<Rightarrow> scalar \<Rightarrow> scalar \<Rightarrow> bool" where
  "is_equal_approx f a b =
     (if ieee_eq a b then True
      else
        let tolerance = ieee_mul f (Fin CMP_EPSILON) (ieee_abs a);
            tolerance =
              (if ieee_lt tolerance (Fin CMP_EPSILON) then Fin CMP_EPSILON else tolerance)
        in ieee_lt (ieee_abs (ieee_sub f a b)) tolerance)"

definition is_zero_approx :: "scalar \<Rightarrow> bool" where
  "is_zero_approx s = ieee_lt (ieee_abs s) (Fin CMP_EPSILON)"

text \<open>
  The specification's \<open>max(EPSILON, EPSILON * |a|)\<close>, as \<^verbatim>\<open>std::max\<close> computes it with
  the IEEE comparison.
\<close>

definition ieee_max :: "scalar \<Rightarrow> scalar \<Rightarrow> scalar" where
  "ieee_max u v = (if ieee_lt u v then v else u)"

subsection \<open>\<^verbatim>\<open>fast_ftoi\<close> and its static variable\<close>

text \<open>
  \<^verbatim>\<open>fast_ftoi\<close> declares \<^verbatim>\<open>static int b\<close>: one object for the whole program, which
  outlives every call. The model passes it explicitly: the function takes the statics
  before the call and returns them after it, beside the value it returns.

  The preprocessor keeps one of three statements that assign \<^verbatim>\<open>b\<close>:

  \<^item> \<open>CastBranch\<close>: \<^verbatim>\<open>b = (int)((a > 0.0) ? (a + 0.5) : (a - 0.5))\<close>, kept under the
    Windows 8 test, which also holds when neither side of
    \<^verbatim>\<open>WINAPI_FAMILY == WINAPI_FAMILY_PHONE_APP\<close> is defined. The sum is taken in double
    precision, exactly for every \<^verbatim>\<open>float\<close> near the range of \<^verbatim>\<open>int\<close>, and the cast
    truncates towards zero.
  \<^item> \<open>LrintBranch\<close>: \<^verbatim>\<open>b = lrintf(a)\<close>, and the \<^verbatim>\<open>fistp\<close> instruction of the branch for
    old compilers: the nearest integer, ties to even, in the default rounding mode.

  The conversion to \<^verbatim>\<open>int\<close> keeps the low 32 bits; in C++ it is undefined for a value
  outside the range of \<^verbatim>\<open>int\<close>.
\<close>

record statics =
  fast_ftoi_b :: "32 word"

datatype ftoi_branch = CastBranch | LrintBranch

definition lrintf :: "real \<Rightarrow> int" where
  "lrintf a = rint a"

definition fast_ftoi :: "ftoi_branch \<Rightarrow> real \<Rightarrow> statics \<Rightarrow> 32 word \<times> statics" where
  "fast_ftoi branch a s =
     (let s = s\<lparr>fast_ftoi_b := word_of_int
                (case branch of
                   CastBranch \<Rightarrow> trunc (if 0 < a then a + 1/2 else a - 1/2)
                 | LrintBranch \<Rightarrow> lrintf a)\<rparr>
      in (fast_ftoi_b s, s))"

section \<open>Powers of two\<close>

subsection \<open>The shift-or cascade\<close>

text \<open>
  One step doubles the window of bits of \<open>w\<close> that bit \<open>n\<close> collects: if bit \<open>n\<close> of \<open>y\<close>
  is set exactly when one of the \<open>j\<close> bits of \<open>w\<close> from \<open>n\<close> upwards is, then bit \<open>n\<close> of
  \<open>y OR drop_bit j y\<close> sees \<open>2 * j\<close> of them.
\<close>

lemma smear_step:
  fixes y w :: uint
  assumes "\<And>n. bit y n \<longleftrightarrow> (\<exists>d<j. bit w (n + d))"
  shows "bit (y OR drop_bit j y) n \<longleftrightarrow> (\<exists>d<2*j. bit w (n + d))"
proof
  assume "bit (y OR drop_bit j y) n"
  then consider "bit y n" | "bit y (j + n)"
    by (auto simp: bit_or_iff bit_drop_bit_eq)
  then show "\<exists>d<2*j. bit w (n + d)"
  proof cases
    case 1
    then obtain d where "d < j" "bit w (n + d)" using assms by blast
    then show ?thesis by (intro exI[of _ d]) simp
  next
    case 2
    then obtain d where "d < j" "bit w (j + n + d)" using assms by blast
    then show ?thesis by (intro exI[of _ "j + d"]) (simp add: ac_simps)
  qed
next
  assume "\<exists>d<2*j. bit w (n + d)"
  then obtain d where d: "d < 2*j" "bit w (n + d)" by blast
  show "bit (y OR drop_bit j y) n"
  proof (cases "d < j")
    case True
    with d assms have "bit y n" by blast
    then show ?thesis by (simp add: bit_or_iff)
  next
    case False
    with d have "d - j < j" "bit w (j + n + (d - j))" by (simp_all add: ac_simps)
    with assms have "bit y (j + n)" by blast
    then show ?thesis by (simp add: bit_or_iff bit_drop_bit_eq)
  qed
qed

lemma bit_smear: "bit (smear w) n \<longleftrightarrow> (\<exists>m\<ge>n. bit w m)"
proof -
  define y1 where "y1 = w OR drop_bit 1 w"
  define y2 where "y2 = y1 OR drop_bit 2 y1"
  define y3 where "y3 = y2 OR drop_bit 4 y2"
  define y4 where "y4 = y3 OR drop_bit 8 y3"
  define y5 where "y5 = y4 OR drop_bit 16 y4"
  have 0: "bit w n \<longleftrightarrow> (\<exists>d<1. bit w (n + d))" for n by simp
  have 1: "bit y1 n \<longleftrightarrow> (\<exists>d<2. bit w (n + d))" for n
    unfolding y1_def using smear_step[of w 1 w n, OF 0] by simp
  have 2: "bit y2 n \<longleftrightarrow> (\<exists>d<4. bit w (n + d))" for n
    unfolding y2_def using smear_step[of y1 2 w n, OF 1] by simp
  have 3: "bit y3 n \<longleftrightarrow> (\<exists>d<8. bit w (n + d))" for n
    unfolding y3_def using smear_step[of y2 4 w n, OF 2] by simp
  have 4: "bit y4 n \<longleftrightarrow> (\<exists>d<16. bit w (n + d))" for n
    unfolding y4_def using smear_step[of y3 8 w n, OF 3] by simp
  have 5: "bit y5 n \<longleftrightarrow> (\<exists>d<32. bit w (n + d))" for n
    unfolding y5_def using smear_step[of y4 16 w n, OF 4] by simp
  have "smear w = y5"
    by (simp only: smear_def Let_def y5_def y4_def y3_def y2_def y1_def)
  then have "bit (smear w) n \<longleftrightarrow> (\<exists>d<32. bit w (n + d))"
    using 5 by simp
  also have "\<dots> \<longleftrightarrow> (\<exists>m\<ge>n. bit w m)"
  proof
    assume "\<exists>d<32. bit w (n + d)"
    then show "\<exists>m\<ge>n. bit w m" by (metis le_add1)
  next
    assume "\<exists>m\<ge>n. bit w m"
    then obtain m where m: "n \<le> m" "bit w m" by blast
    then have "m < 32" using bit_imp_le_length[of w m] by simp
    with m show "\<exists>d<32. bit w (n + d)" by (intro exI[of _ "m - n"]) simp
  qed
  finally show ?thesis .
qed

lemma bit_nat_ge: "2 ^ k \<le> m" if "bit (m::nat) k"
proof (rule ccontr)
  assume "\<not> 2 ^ k \<le> m"
  then have "take_bit k m = m" by (simp add: take_bit_nat_eq_self)
  then have "bit (take_bit k m) k" using that by simp
  then show False by (simp add: bit_take_bit_iff)
qed

text \<open>
  The cascade yields \<open>2 ^ N - 1\<close>, where \<open>N\<close> is the number of significant bits of \<open>w\<close>.
\<close>

lemma smear_mask:
  "\<exists>N\<le>32. smear w = mask N \<and> unat w < 2 ^ N \<and> (0 < N \<longrightarrow> 2 ^ (N - 1) \<le> unat w)"
proof (cases "w = 0")
  case True
  then have "smear w = 0" by (simp add: smear_def)
  with True show ?thesis by (intro exI[of _ 0]) simp
next
  case False
  define S where "S = {m. bit w m}"
  have fin: "finite S" unfolding S_def by simp
  from False have ne: "S \<noteq> {}" unfolding S_def by (auto simp: bit_eq_iff)
  define k where "k = Max S"
  have k_in: "bit w k" using Max_in[OF fin ne] by (simp add: k_def S_def)
  have k_max: "m \<le> k" if "bit w m" for m
    using Max_ge[OF fin, of m] that by (simp add: k_def S_def)
  have k32: "k < 32" using bit_imp_le_length[OF k_in] by simp
  have sm: "smear w = mask (Suc k)"
  proof (rule bit_eqI)
    fix n assume "possible_bit TYPE(32 word) n"
    then have n32: "n < 32" by simp
    show "bit (smear w) n \<longleftrightarrow> bit (mask (Suc k) :: 32 word) n"
    proof
      assume "bit (smear w) n"
      then obtain m where "n \<le> m" "bit w m" unfolding bit_smear by blast
      then have "n \<le> k" using k_max[of m] by simp
      then show "bit (mask (Suc k) :: 32 word) n" using n32 by (simp add: bit_mask_iff)
    next
      assume "bit (mask (Suc k) :: 32 word) n"
      then have "n \<le> k" by (simp add: bit_mask_iff)
      then show "bit (smear w) n" unfolding bit_smear using k_in by blast
    qed
  qed
  have "take_bit (Suc k) w = w"
  proof (rule bit_eqI)
    fix n show "bit (take_bit (Suc k) w) n \<longleftrightarrow> bit w n"
      using k_max[of n] by (auto simp: bit_take_bit_iff)
  qed
  then have "unat w = take_bit (Suc k) (unat w)"
    by (metis unsigned_take_bit_eq)
  then have up: "unat w < 2 ^ Suc k"
    by (metis take_bit_nat_less_exp)
  have "bit (unat w) k" using k_in by (simp add: bit_unsigned_iff)
  then have lo: "2 ^ k \<le> unat w" by (rule bit_nat_ge)
  from sm up lo k32 show ?thesis by (intro exI[of _ "Suc k"]) simp
qed

lemma next_power_of_2_smear: "x \<noteq> 0 \<Longrightarrow> next_power_of_2 x = smear (x - 1) + 1"
  by (simp only: next_power_of_2_def smear_def Let_def if_False)

lemma previous_power_of_2_smear: "previous_power_of_2 x = smear x - drop_bit 1 (smear x)"
  by (simp only: previous_power_of_2_def smear_def Let_def)

lemma drop_bit_1_mask: "drop_bit 1 (mask (Suc k) :: 32 word) = mask k" if "k < 32"
proof (rule bit_eqI)
  fix n assume "possible_bit TYPE(32 word) n"
  then show "bit (drop_bit 1 (mask (Suc k) :: 32 word)) n \<longleftrightarrow> bit (mask k :: 32 word) n"
    using that by (auto simp: bit_drop_bit_eq bit_mask_iff)
qed

lemma unat_2p32: "unat (2 ^ k :: 32 word) = 2 ^ k" if "k < 32"
proof -
  have "(2 ^ k :: 32 word) = word_of_nat (2 ^ k)" by simp
  moreover have "(2::nat) ^ k < 2 ^ 32"
    using that by (intro power_strict_increasing) simp_all
  ultimately show ?thesis
    by (simp add: unat_of_nat take_bit_nat_eq_self del: of_nat_power)
qed

subsection \<open>What the two functions return\<close>

lemma next_power_of_2_shape:
  assumes "x \<noteq> 0"
  shows "\<exists>N\<le>32. next_power_of_2 x = 2 ^ N \<and> unat x \<le> 2 ^ N
           \<and> (0 < N \<longrightarrow> 2 ^ (N - 1) < unat x)"
proof -
  from smear_mask[of "x - 1"] obtain N where N: "N \<le> 32" "smear (x - 1) = mask N"
    "unat (x - 1) < 2 ^ N" "0 < N \<longrightarrow> 2 ^ (N - 1) \<le> unat (x - 1)" by blast
  have u: "unat (x - 1) = unat x - 1" using assms by (simp add: unat_minus_one)
  have pos: "0 < unat x" using assms by (simp add: unat_gt_0)
  have "next_power_of_2 x = 2 ^ N"
    using assms N(2) by (simp add: next_power_of_2_smear mask_eq_exp_minus_1)
  moreover have "unat x \<le> 2 ^ N" using N(3) u pos by linarith
  moreover have "0 < N \<longrightarrow> 2 ^ (N - 1) < unat x" using N(4) u pos by auto
  ultimately show ?thesis using N(1) by blast
qed

lemma previous_power_of_2_shape:
  "previous_power_of_2 x = 0 \<and> x = 0 \<or>
   (\<exists>k<32. previous_power_of_2 x = 2 ^ k \<and> 2 ^ k \<le> unat x \<and> unat x < 2 ^ Suc k)"
proof -
  from smear_mask[of x] obtain N where N: "N \<le> 32" "smear x = mask N"
    "unat x < 2 ^ N" "0 < N \<longrightarrow> 2 ^ (N - 1) \<le> unat x" by blast
  show ?thesis
  proof (cases N)
    case 0
    with N show ?thesis by (simp add: previous_power_of_2_smear unat_eq_0)
  next
    case (Suc k)
    have "previous_power_of_2 x = mask (Suc k) - mask k"
      using N(1,2) Suc by (simp only: previous_power_of_2_smear drop_bit_1_mask Suc_le_eq)
    also have "\<dots> = (2 ^ k :: 32 word)" by (simp add: mask_eq_exp_minus_1)
    finally have "previous_power_of_2 x = 2 ^ k" .
    moreover have "k < 32" "2 ^ k \<le> unat x" "unat x < 2 ^ Suc k" using N Suc by simp_all
    ultimately show ?thesis by blast
  qed
qed

lemma next_power_of_2_small:
  assumes pos: "0 < unat x" and le: "unat x \<le> 2 ^ 31"
  shows "(\<exists>k. unat (next_power_of_2 x) = 2 ^ k) \<and>
         unat x \<le> unat (next_power_of_2 x) \<and>
         (\<forall>j. unat x \<le> 2 ^ j \<longrightarrow> unat (next_power_of_2 x) \<le> 2 ^ j)"
proof -
  from pos have "x \<noteq> 0" by auto
  from next_power_of_2_shape[OF this] obtain N where N: "N \<le> 32"
    "next_power_of_2 x = 2 ^ N" "unat x \<le> 2 ^ N" "0 < N \<longrightarrow> 2 ^ (N - 1) < unat x"
    by blast
  have N31: "N \<le> 31"
  proof (rule ccontr)
    assume "\<not> N \<le> 31"
    with N(1) have "N = 32" by simp
    with N(4) le show False by simp
  qed
  then have u: "unat (next_power_of_2 x) = 2 ^ N" using N(2) by (simp add: unat_2p32)
  have "unat (next_power_of_2 x) \<le> 2 ^ j" if j: "unat x \<le> 2 ^ j" for j
  proof (cases N)
    case 0
    then show ?thesis using u by simp
  next
    case (Suc M)
    from N(4) Suc have "2 ^ M < unat x" by simp
    with j have "(2::nat) ^ M < 2 ^ j" by linarith
    then have "M < j" by (simp add: power_strict_increasing_iff)
    then have "(2::nat) ^ Suc M \<le> 2 ^ j" by (intro power_increasing) simp_all
    then show ?thesis using u Suc by simp
  qed
  with u N(3) show ?thesis by auto
qed

lemma next_power_of_2_big:
  assumes gt: "2 ^ 31 < unat x"
  shows "next_power_of_2 x = 0"
proof -
  from gt have "x \<noteq> 0" by auto
  from next_power_of_2_shape[OF this] obtain N where N: "N \<le> 32"
    "next_power_of_2 x = 2 ^ N" "unat x \<le> 2 ^ N" by blast
  have "N = 32"
  proof (rule ccontr)
    assume "N \<noteq> 32"
    with N(1) have "N \<le> 31" by simp
    then have "(2::nat) ^ N \<le> 2 ^ 31" by (intro power_increasing) simp_all
    with N(3) gt show False by simp
  qed
  with N(2) show ?thesis by simp
qed

lemma previous_power_of_2_le: "unat (previous_power_of_2 x) \<le> unat x"
  using previous_power_of_2_shape[of x] by (auto simp: unat_2p32)

lemma next_power_of_2_ge:
  assumes "unat x \<le> 2 ^ 31"
  shows "unat x \<le> unat (next_power_of_2 x)"
proof (cases "x = 0")
  case True
  then show ?thesis by simp
next
  case False
  then have "0 < unat x" by (simp add: unat_gt_0)
  with assms next_power_of_2_small[of x] show ?thesis by blast
qed

text \<open>
  Claim C8, as the code has it. For every \<open>x\<close> from 1 to \<open>2 ^ 31\<close>,
  \<open>next_power_of_2 x\<close> is a power of two, is at least \<open>x\<close>, and is at most every power of
  two that is at least \<open>x\<close>; \<open>next_power_of_2 0 = 0\<close>, \<open>next_power_of_2 5 = 8\<close> and
  \<open>next_power_of_2 8 = 8\<close>. Above \<open>2 ^ 31\<close> the power of two wanted is \<open>2 ^ 32\<close>, which the
  type cannot hold: the final increment wraps and the function returns 0.
\<close>

theorem next_power_of_2_smallest:
  "next_power_of_2 0 = 0 \<and> next_power_of_2 5 = 8 \<and> next_power_of_2 8 = 8 \<and>
   (0 < unat x \<and> unat x \<le> 2 ^ 31 \<longrightarrow>
      (\<exists>k. unat (next_power_of_2 x) = 2 ^ k) \<and>
      unat x \<le> unat (next_power_of_2 x) \<and>
      (\<forall>j. unat x \<le> 2 ^ j \<longrightarrow> unat (next_power_of_2 x) \<le> 2 ^ j)) \<and>
   (2 ^ 31 < unat x \<longrightarrow> next_power_of_2 x = 0)"
proof -
  have c0: "next_power_of_2 0 = 0" by (simp add: next_power_of_2_def)
  have c5: "next_power_of_2 5 = 8" by (simp add: next_power_of_2_def Let_def)
  have c8: "next_power_of_2 8 = 8" by (simp add: next_power_of_2_def Let_def)
  from c0 c5 c8 next_power_of_2_small[of x] next_power_of_2_big[of x]
  show ?thesis by blast
qed

theorem next_power_of_2_smallest_witness:
  "0 < unat (5 :: 32 word) \<and> unat (5 :: 32 word) \<le> 2 ^ 31 \<and>
   (\<exists>k. unat (next_power_of_2 5) = 2 ^ k) \<and>
   unat (5 :: 32 word) \<le> unat (next_power_of_2 5) \<and>
   unat (next_power_of_2 5) \<le> 2 ^ 3 \<and>
   2 ^ 31 < unat (0x80000001 :: 32 word) \<and> next_power_of_2 0x80000001 = 0"
proof -
  have h1: "0 < unat (5 :: 32 word) \<and> unat (5 :: 32 word) \<le> 2 ^ 31" by simp
  have h2: "unat (5 :: 32 word) \<le> 2 ^ 3" by simp
  have h3: "2 ^ 31 < unat (0x80000001 :: 32 word)" by simp
  from next_power_of_2_smallest[of 5] h1 h2 next_power_of_2_smallest[of "0x80000001"] h3
  show ?thesis by blast
qed

text \<open>
  The claim as stated, for every 32-bit \<open>x\<close>, fails at \<open>x = 2 ^ 31 + 1\<close>: the result 0 is
  below \<open>x\<close>.
\<close>

theorem next_power_of_2_overflow:
  "next_power_of_2 0x80000001 = 0 \<and>
   \<not> unat (0x80000001 :: 32 word) \<le> unat (next_power_of_2 0x80000001)"
  by (simp add: next_power_of_2_def Let_def)

text \<open>
  Claim C5, as the code has it. For every \<open>x\<close> up to \<open>2 ^ 31\<close>, \<open>closest_power_of_2 x\<close>
  is \<open>previous_power_of_2 x\<close> when that is strictly nearer to \<open>x\<close> than
  \<open>next_power_of_2 x\<close>, and \<open>next_power_of_2 x\<close> otherwise: a tie goes to the higher
  value. \<open>closest_power_of_2 5 = 4\<close>.
\<close>

theorem closest_power_of_2_nearest:
  "closest_power_of_2 5 = 4 \<and>
   (unat x \<le> 2 ^ 31 \<longrightarrow>
      closest_power_of_2 x =
        (if \<bar>int (unat x) - int (unat (previous_power_of_2 x))\<bar>
              < \<bar>int (unat (next_power_of_2 x)) - int (unat x)\<bar>
         then previous_power_of_2 x else next_power_of_2 x))"
proof -
  have c5: "closest_power_of_2 5 = 4"
    by (simp add: closest_power_of_2_def next_power_of_2_def previous_power_of_2_def Let_def)
  have gen: "closest_power_of_2 x =
        (if \<bar>int (unat x) - int (unat (previous_power_of_2 x))\<bar>
              < \<bar>int (unat (next_power_of_2 x)) - int (unat x)\<bar>
         then previous_power_of_2 x else next_power_of_2 x)" if le: "unat x \<le> 2 ^ 31"
  proof -
    have p: "unat (previous_power_of_2 x) \<le> unat x" by (rule previous_power_of_2_le)
    have n: "unat x \<le> unat (next_power_of_2 x)" using le by (rule next_power_of_2_ge)
    have dn: "unat (next_power_of_2 x - x) = unat (next_power_of_2 x) - unat x"
      using n by (simp add: unat_sub word_le_nat_alt)
    have dp: "unat (x - previous_power_of_2 x) = unat x - unat (previous_power_of_2 x)"
      using p by (simp add: unat_sub word_le_nat_alt)
    have "(next_power_of_2 x - x > x - previous_power_of_2 x) \<longleftrightarrow>
          \<bar>int (unat x) - int (unat (previous_power_of_2 x))\<bar>
              < \<bar>int (unat (next_power_of_2 x)) - int (unat x)\<bar>"
      unfolding word_less_nat_alt dn dp using p n by linarith
    then show ?thesis by (simp add: closest_power_of_2_def Let_def)
  qed
  from c5 gen show ?thesis by blast
qed

theorem closest_power_of_2_nearest_witness:
  "unat (6 :: 32 word) \<le> 2 ^ 31 \<and> closest_power_of_2 6 = next_power_of_2 6 \<and>
   \<bar>int (unat (6 :: 32 word)) - int (unat (previous_power_of_2 6))\<bar>
     = \<bar>int (unat (next_power_of_2 6)) - int (unat (6 :: 32 word))\<bar>"
proof -
  have h: "unat (6 :: 32 word) \<le> 2 ^ 31" by simp
  have n: "next_power_of_2 6 = 8" by (simp add: next_power_of_2_def Let_def)
  have p: "previous_power_of_2 6 = 4" by (simp add: previous_power_of_2_def Let_def)
  from closest_power_of_2_nearest[of 6] h n p show ?thesis by simp
qed

text \<open>
  The claim as stated sends a tie to the lower value. At \<open>x = 6\<close> both neighbours are at
  distance 2 and the code returns the higher one.
\<close>

theorem closest_power_of_2_tie:
  "previous_power_of_2 6 = 4 \<and> next_power_of_2 6 = 8 \<and> closest_power_of_2 6 = 8
   \<and> closest_power_of_2 6 \<noteq> previous_power_of_2 6"
  by (simp add: closest_power_of_2_def next_power_of_2_def previous_power_of_2_def Let_def)

text \<open>
  The description of \<open>previous_power_of_2\<close> in the specification: for every \<open>x\<close> from 1
  the result is a power of two, is at most \<open>x\<close>, and is at least every power of two
  that is at most \<open>x\<close>; \<open>previous_power_of_2 0 = 0\<close> and \<open>previous_power_of_2 5 = 4\<close>.
\<close>

theorem previous_power_of_2_largest:
  "previous_power_of_2 0 = 0 \<and> previous_power_of_2 5 = 4 \<and>
   (0 < unat x \<longrightarrow>
      (\<exists>k. unat (previous_power_of_2 x) = 2 ^ k) \<and>
      unat (previous_power_of_2 x) \<le> unat x \<and>
      (\<forall>j. 2 ^ j \<le> unat x \<longrightarrow> 2 ^ j \<le> unat (previous_power_of_2 x)))"
proof -
  have c0: "previous_power_of_2 0 = 0" by (simp add: previous_power_of_2_def)
  have c5: "previous_power_of_2 5 = 4" by (simp add: previous_power_of_2_def Let_def)
  have gen: "(\<exists>k. unat (previous_power_of_2 x) = 2 ^ k) \<and>
      unat (previous_power_of_2 x) \<le> unat x \<and>
      (\<forall>j. 2 ^ j \<le> unat x \<longrightarrow> 2 ^ j \<le> unat (previous_power_of_2 x))" if pos: "0 < unat x"
  proof -
    from pos have "x \<noteq> 0" by auto
    with previous_power_of_2_shape[of x] obtain k where k: "k < 32"
      "previous_power_of_2 x = 2 ^ k" "2 ^ k \<le> unat x" "unat x < 2 ^ Suc k" by blast
    have u: "unat (previous_power_of_2 x) = 2 ^ k" using k(1,2) by (simp add: unat_2p32)
    have "2 ^ j \<le> unat (previous_power_of_2 x)" if j: "2 ^ j \<le> unat x" for j
    proof -
      from j k(4) have lt: "(2::nat) ^ j < 2 ^ Suc k" by linarith
      have "j < Suc k" by (rule power_less_imp_less_exp[OF _ lt]) simp
      then have "(2::nat) ^ j \<le> 2 ^ k" by (intro power_increasing) simp_all
      then show ?thesis using u by simp
    qed
    with u k(3) show ?thesis by auto
  qed
  from c0 c5 gen show ?thesis by blast
qed

theorem previous_power_of_2_largest_witness:
  "0 < unat (5 :: 32 word) \<and> (\<exists>k. unat (previous_power_of_2 5) = 2 ^ k) \<and>
   unat (previous_power_of_2 5) \<le> unat (5 :: 32 word) \<and>
   2 ^ 2 \<le> unat (previous_power_of_2 5)"
proof -
  have h1: "0 < unat (5 :: 32 word)" by simp
  have h2: "2 ^ 2 \<le> unat (5 :: 32 word)" by simp
  from previous_power_of_2_largest[of 5] h1 h2 show ?thesis by blast
qed

lemma pow2_word_inj: "i = k" if "(2 ^ i :: 32 word) = 2 ^ k" "i < 32" "k < 32"
proof -
  from that have "(2::nat) ^ i = 2 ^ k" by (metis unat_2p32)
  then show ?thesis by simp
qed

lemma get_shift_power: "get_shift_from_power_of_2 (2 ^ k) = int k" if "k < 32"
proof -
  have "find (\<lambda>i. (2 ^ k :: 32 word) = push_bit i 1) [0..<32] = Some k"
    unfolding find_Some_iff
  proof (intro exI[of _ k] conjI allI impI)
    show "k < length [0..<32]" using that by simp
    show "(2 ^ k :: 32 word) = push_bit ([0..<32] ! k) 1"
      using that by (simp add: push_bit_eq_mult)
    show "k = [0..<32] ! k" using that by simp
    fix j assume "j < k"
    then have "j < 32" "j \<noteq> k" using that by simp_all
    then show "\<not> (2 ^ k :: 32 word) = push_bit ([0..<32] ! j) 1"
      using that pow2_word_inj[of k j] by (auto simp: push_bit_eq_mult)
  qed
  then show ?thesis by (simp add: get_shift_from_power_of_2_def)
qed

lemma get_shift_none:
  "get_shift_from_power_of_2 p = - 1" if "\<And>k. k < 32 \<Longrightarrow> p \<noteq> 2 ^ k"
proof -
  have "find (\<lambda>i. p = push_bit i 1) [0..<32] = None"
    unfolding find_None_iff using that by (auto simp: push_bit_eq_mult)
  then show ?thesis by (simp add: get_shift_from_power_of_2_def)
qed

text \<open>
  \<open>get_shift_from_power_of_2\<close> returns the exponent of a power of two below \<open>2 ^ 32\<close>
  and \<open>- 1\<close> for every other argument; it maps 16 to 4 and 6 to \<open>- 1\<close>.
\<close>

theorem get_shift_from_power_of_2_exponent:
  "get_shift_from_power_of_2 16 = 4 \<and> get_shift_from_power_of_2 6 = - 1 \<and>
   (k < 32 \<longrightarrow> get_shift_from_power_of_2 (2 ^ k) = int k) \<and>
   ((\<forall>k<32. p \<noteq> 2 ^ k) \<longrightarrow> get_shift_from_power_of_2 p = - 1)"
proof -
  have e1: "get_shift_from_power_of_2 16 = 4"
    by (simp add: get_shift_from_power_of_2_def upt_rec)
  have e2: "get_shift_from_power_of_2 6 = - 1"
    by (simp add: get_shift_from_power_of_2_def upt_rec)
  from e1 e2 get_shift_power[of k] get_shift_none[of p] show ?thesis by blast
qed

theorem get_shift_from_power_of_2_exponent_witness:
  "(5::nat) < 32 \<and> get_shift_from_power_of_2 (2 ^ 5) = 5 \<and>
   get_shift_from_power_of_2 0 = - 1"
proof -
  have h: "\<forall>k<32. (0 :: 32 word) \<noteq> 2 ^ k"
  proof (intro allI impI)
    fix k :: nat assume "k < 32"
    then have "unat (2 ^ k :: 32 word) = 2 ^ k" by (rule unat_2p32)
    then show "(0 :: 32 word) \<noteq> 2 ^ k" by (metis unat_0 power_not_zero zero_neq_numeral)
  qed
  from get_shift_from_power_of_2_exponent[of 5 0] h show ?thesis by simp
qed

section \<open>Integer wrap\<close>

lemma sint64_id: "sint (word_of_int k :: 64 word) = k" if "- (2 ^ 63) \<le> k" "k < 2 ^ 63"
  using that by (simp add: sint_sbintrunc' signed_take_bit_int_eq_self)

lemma sint64_bounds: "- (2 ^ 63) \<le> sint (w :: 64 word)" "sint (w :: 64 word) < 2 ^ 63"
  using sint_ge[of w] sint_lt[of w] by simp_all

lemma sint64_sub:
  "sint (a - b :: 64 word) = sint a - sint b"
  if "- (2 ^ 63) \<le> sint a - sint b" "sint a - sint b < 2 ^ 63"
  using that by (simp add: sint_word_diff signed_take_bit_int_eq_self)

lemma sint64_add:
  "sint (a + b :: 64 word) = sint a + sint b"
  if "- (2 ^ 63) \<le> sint a + sint b" "sint a + sint b < 2 ^ 63"
  using that by (simp add: sint_word_add signed_take_bit_int_eq_self)

lemma smod_abs_less: "\<bar>k smod l\<bar> < \<bar>l\<bar>" if "l \<noteq> 0" for k l :: int
  using that by (simp add: smod_int_alt_def abs_mult abs_sgn_eq)

text \<open>A remainder by a positive divisor has a value.\<close>

lemma int64_rem_Inr:
  "\<exists>r. int64_rem a b = Inr r \<and> sint r = sint a smod sint b" if "0 < sint b"
proof -
  have ne: "sint b \<noteq> 0" using that by simp
  have "\<bar>sint a smod sint b\<bar> < \<bar>sint b\<bar>" using ne by (rule smod_abs_less)
  moreover have "\<bar>sint b\<bar> \<le> 2 ^ 63" using sint64_bounds[of b] by linarith
  ultimately have "- (2 ^ 63) \<le> sint a smod sint b" "sint a smod sint b < 2 ^ 63"
    by linarith+
  then have "sint (word_of_int (sint a smod sint b) :: 64 word) = sint a smod sint b"
    by (rule sint64_id)
  moreover have "b \<noteq> 0" using ne by auto
  ultimately show ?thesis using that by (simp add: int64_rem_def)
qed

lemma int64_rem_zero: "int64_rem a b = Inl DivideByZero \<longleftrightarrow> b = 0"
  by (simp add: int64_rem_def)

lemma smod_nonneg: "k smod l = k mod l" if "0 \<le> k" "0 < l" for k l :: int
  using that by (simp add: smod_int_alt_def sgn_if)

lemma smod_shift: "(k smod l + l) mod l = k mod l" if "0 < l" for k l :: int
proof -
  have "k smod l = k - k sdiv l * l" by (simp add: minus_sdiv_mult_eq_smod)
  then have "k smod l + l = k + (1 - k sdiv l) * l" by (simp add: algebra_simps)
  then show ?thesis by simp
qed

text \<open>
  Both remainders are taken in the branch where the range is not zero, and by the range:
  neither has a zero divisor.
\<close>

lemma wrapi_no_zero_divide: "wrapi v lo hi \<noteq> Inl DivideByZero"
proof (cases "hi - lo = 0")
  case True
  then show ?thesis by (simp add: wrapi_def)
next
  case False
  then show ?thesis
    by (auto simp: wrapi_def Let_def int64_rem_zero split: sum.splits)
qed

text \<open>
  When no intermediate result leaves the 64-bit range, \<open>wrapi\<close> is the shifted floored
  remainder.
\<close>

lemma wrapi_no_overflow:
  fixes v lo hi :: int64_t
  assumes lt: "sint lo < sint hi"
    and r: "sint hi - sint lo < 2 ^ 63"
    and d: "- (2 ^ 63) \<le> sint v - sint lo" "sint v - sint lo < 2 ^ 63"
    and s: "(sint v - sint lo) smod (sint hi - sint lo) + (sint hi - sint lo) < 2 ^ 63"
  shows "\<exists>w. wrapi v lo hi = Inr w
           \<and> sint w = sint lo + (sint v - sint lo) mod (sint hi - sint lo)"
proof -
  define R where "R = sint hi - sint lo"
  define range where "range = hi - lo"
  have Rpos: "0 < R" using lt by (simp add: R_def)
  have sr: "sint range = R"
    unfolding range_def R_def using r lt by (intro sint64_sub) simp_all
  then have rne: "range \<noteq> 0" using Rpos by auto
  have sd: "sint (v - lo) = sint v - sint lo" using d by (rule sint64_sub)
  define r1 where "r1 = (sint v - sint lo) smod R"
  have r1b: "\<bar>r1\<bar> < R"
    using smod_abs_less[of R "sint v - sint lo"] Rpos by (simp add: r1_def)
  obtain w1 where w1: "int64_rem (v - lo) range = Inr w1" "sint w1 = r1"
    using int64_rem_Inr[of range "v - lo"] Rpos by (auto simp: sr sd r1_def)
  have s2: "sint (w1 + range) = r1 + R"
  proof -
    have "(0::int) \<le> 2 ^ 63" by simp
    then have "- (2 ^ 63) \<le> r1 + R" using r1b by linarith
    moreover have "r1 + R < 2 ^ 63" using s by (simp add: r1_def R_def)
    ultimately have "sint (w1 + range) = sint w1 + sint range"
      by (intro sint64_add) (simp_all only: w1(2) sr)
    then show ?thesis by (simp only: w1(2) sr)
  qed
  obtain w2 where w2: "int64_rem (w1 + range) range = Inr w2" "sint w2 = (r1 + R) smod R"
    using int64_rem_Inr[of range "w1 + range"] Rpos by (auto simp: sr s2)
  have s3: "sint w2 = (sint v - sint lo) mod R"
  proof -
    have "(r1 + R) smod R = (r1 + R) mod R" using r1b Rpos by (intro smod_nonneg) linarith+
    also have "\<dots> = (sint v - sint lo) mod R"
      unfolding r1_def using Rpos by (rule smod_shift)
    finally show ?thesis using w2(2) by simp
  qed
  have mb: "0 \<le> (sint v - sint lo) mod R" "(sint v - sint lo) mod R < R"
    using Rpos by simp_all
  have "- (2 ^ 63) \<le> sint lo + (sint v - sint lo) mod R"
    using mb sint64_bounds(1)[of lo] by linarith
  moreover have "sint lo + (sint v - sint lo) mod R < 2 ^ 63"
    using mb sint64_bounds(2)[of hi] unfolding R_def by linarith
  ultimately have "sint (lo + w2) = sint lo + sint w2"
    by (intro sint64_add) (simp_all only: s3)
  then have "sint (lo + w2) = sint lo + (sint v - sint lo) mod R"
    by (simp add: s3)
  moreover have "wrapi v lo hi = Inr (lo + w2)"
    using rne w1(1) w2(1) by (simp add: wrapi_def Let_def range_def[symmetric])
  ultimately show ?thesis by (simp add: R_def)
qed

text \<open>
  Claim C7, as the code has it. Whatever its arguments, \<open>wrapi\<close> never takes a remainder
  by zero, and \<open>wrapi x m m\<close> is \<open>m\<close> for every \<open>x\<close> and \<open>m\<close>. For \<open>max > min\<close>, when none
  of \<open>max - min\<close>, \<open>value - min\<close> and the sum of the first remainder and the range leaves
  the signed 64-bit range, \<open>wrapi\<close> returns a value that lies in \<open>[min, max)\<close> and differs
  from \<open>value\<close> by a multiple of \<open>max - min\<close>.
\<close>

theorem wrapi_in_range:
  "wrapi v lo hi \<noteq> Inl DivideByZero \<and> wrapi x m m = Inr m \<and>
   (sint lo < sint hi \<and> sint hi - sint lo < 2 ^ 63 \<and>
    - (2 ^ 63) \<le> sint v - sint lo \<and> sint v - sint lo < 2 ^ 63 \<and>
    (sint v - sint lo) smod (sint hi - sint lo) + (sint hi - sint lo) < 2 ^ 63
    \<longrightarrow> (\<exists>w. wrapi v lo hi = Inr w \<and> sint lo \<le> sint w \<and> sint w < sint hi \<and>
             (sint hi - sint lo) dvd (sint w - sint v)))"
proof -
  have deg: "wrapi x m m = Inr m" by (simp add: wrapi_def)
  have gen: "\<exists>w. wrapi v lo hi = Inr w \<and> sint lo \<le> sint w \<and> sint w < sint hi \<and>
        (sint hi - sint lo) dvd (sint w - sint v)"
    if lt: "sint lo < sint hi" and r: "sint hi - sint lo < 2 ^ 63"
      and d: "- (2 ^ 63) \<le> sint v - sint lo" "sint v - sint lo < 2 ^ 63"
      and s: "(sint v - sint lo) smod (sint hi - sint lo) + (sint hi - sint lo) < 2 ^ 63"
  proof -
    define R where "R = sint hi - sint lo"
    define D where "D = sint v - sint lo"
    have Rpos: "0 < R" using lt by (simp add: R_def)
    obtain w where w: "wrapi v lo hi = Inr w" "sint w = sint lo + D mod R"
      using wrapi_no_overflow[OF lt r d s] by (auto simp: R_def D_def)
    have mb: "0 \<le> D mod R" "D mod R < R" using Rpos by simp_all
    have "sint w - sint v = - (D - D mod R)" by (simp add: w(2) D_def)
    also have "\<dots> = - (R * (D div R))" by (simp add: minus_mod_eq_mult_div)
    finally have "R dvd (sint w - sint v)" by simp
    with w mb show ?thesis by (simp add: R_def)
  qed
  from wrapi_no_zero_divide[of v lo hi] deg gen show ?thesis by blast
qed

theorem wrapi_in_range_witness:
  "sint (- 2 :: 64 word) < sint (3 :: 64 word) \<and>
   (\<exists>w. wrapi (- 7) (- 2) 3 = Inr w \<and>
        sint (- 2 :: 64 word) \<le> sint w \<and> sint w < sint (3 :: 64 word) \<and>
        (sint (3 :: 64 word) - sint (- 2 :: 64 word)) dvd (sint w - sint (- 7 :: 64 word)))"
proof -
  have h: "sint (- 2 :: 64 word) < sint (3 :: 64 word) \<and>
      sint (3 :: 64 word) - sint (- 2 :: 64 word) < 2 ^ 63 \<and>
      - (2 ^ 63) \<le> sint (- 7 :: 64 word) - sint (- 2 :: 64 word) \<and>
      sint (- 7 :: 64 word) - sint (- 2 :: 64 word) < 2 ^ 63 \<and>
      (sint (- 7 :: 64 word) - sint (- 2 :: 64 word))
          smod (sint (3 :: 64 word) - sint (- 2 :: 64 word))
        + (sint (3 :: 64 word) - sint (- 2 :: 64 word)) < 2 ^ 63"
    by (simp add: smod_int_alt_def)
  from wrapi_in_range[of "- 7" "- 2" 3 0 0] h show ?thesis by blast
qed

text \<open>
  The claim as stated, for all 64-bit integers with \<open>max > min\<close>, fails where the
  arithmetic overflows. With \<open>min = 0\<close>, \<open>max = 2 ^ 63 - 1\<close> and \<open>value = 2 ^ 63 - 2\<close> the sum
  of the first remainder and the range wraps to \<open>- 3\<close>, which is the result. With
  \<open>min = - 2 ^ 63\<close>, \<open>max = 2 ^ 63 - 1\<close> and \<open>value = 0\<close> the range wraps to \<open>- 1\<close>, the
  difference \<open>value - min\<close> to \<open>- 2 ^ 63\<close>, and their remainder has no value.
\<close>

theorem wrapi_overflow:
  "sint (0 :: 64 word) < sint (0x7FFFFFFFFFFFFFFF :: 64 word) \<and>
   wrapi 0x7FFFFFFFFFFFFFFE 0 0x7FFFFFFFFFFFFFFF = Inr (- 3) \<and>
   \<not> sint (0 :: 64 word) \<le> sint (- 3 :: 64 word) \<and>
   sint (0x8000000000000000 :: 64 word) < sint (0x7FFFFFFFFFFFFFFF :: 64 word) \<and>
   wrapi 0 0x8000000000000000 0x7FFFFFFFFFFFFFFF = Inl DivideOverflow"
  by (simp add: wrapi_def int64_rem_def Let_def smod_int_alt_def)

section \<open>Rounding\<close>

text \<open>
  \<open>rint\<close> returns an integer within one half of its argument and is monotone against
  integers.
\<close>

lemma rint_nearest: "\<bar>of_int (rint x) - x\<bar> \<le> 1/2"
proof -
  have "of_int \<lfloor>x\<rfloor> \<le> x" "x < of_int \<lfloor>x\<rfloor> + 1" by linarith+
  then show ?thesis by (auto simp: rint_def Let_def)
qed

lemma rint_mono_int: "of_int k \<le> x \<Longrightarrow> k \<le> rint x"
proof -
  assume "of_int k \<le> x"
  then have "k \<le> \<lfloor>x\<rfloor>" by (simp add: le_floor_iff)
  then show ?thesis by (auto simp: rint_def Let_def)
qed

lemma rint_le_int: "x \<le> of_int k \<Longrightarrow> rint x \<le> k"
proof -
  assume a: "x \<le> of_int k"
  show ?thesis
  proof (cases "x = of_int k")
    case True then show ?thesis by (simp add: rint_def Let_def)
  next
    case False
    with a have "x < of_int k" by simp
    then have "\<lfloor>x\<rfloor> < k" by (simp add: floor_less_iff)
    then have "\<lfloor>x\<rfloor> + 1 \<le> k" by simp
    then show ?thesis by (auto simp: rint_def Let_def)
  qed
qed

lemma rint_of_int: "rint (of_int k) = k"
  by (simp add: rint_def Let_def)

text \<open>\<open>ilog2\<close> returns the exponent of the binade, and nothing else is one.\<close>

lemma ilog2_bounds:
  assumes "0 < a"
  shows "2 powi (ilog2 a) \<le> a" and "a < 2 powi (ilog2 a + 1)"
proof -
  have "2 powi (ilog2 a) \<le> a \<and> a < 2 powi (ilog2 a + 1)"
  proof (cases "1 \<le> a")
    case True
    define n where "n = \<lfloor>a\<rfloor>"
    have n1: "1 \<le> n" using True by (simp add: n_def le_floor_iff)
    then have npos: "0 < n" by simp
    define k where "k = bitlen n"
    from bitlen_bounds[OF npos] have b: "2 ^ nat (k - 1) \<le> n" "n < 2 ^ nat k"
      by (simp_all add: k_def)
    have k1: "1 \<le> k"
    proof (rule ccontr)
      assume "\<not> 1 \<le> k"
      then have "nat k = 0" by simp
      with b(2) n1 show False by simp
    qed
    have il: "ilog2 a = k - 1" using True by (simp add: ilog2_def n_def k_def)
    have na: "of_int n \<le> a" "a < of_int n + 1" unfolding n_def by linarith+
    have "(2::real) powi (k - 1) = 2 ^ nat (k - 1)" using k1 by (simp add: power_int_def)
    also have "\<dots> = of_int (2 ^ nat (k - 1))" by simp
    also have "\<dots> \<le> of_int n" using b(1) by (simp only: of_int_le_iff)
    finally have lo: "2 powi (k - 1) \<le> a" using na(1) by linarith
    have "n + 1 \<le> 2 ^ nat k" using b(2) by simp
    then have "real_of_int (n + 1) \<le> of_int (2 ^ nat k)" by (simp only: of_int_le_iff)
    also have "\<dots> = 2 powi k" using k1 by (simp add: power_int_def)
    finally have hi: "a < 2 powi k" using na(2) by simp
    from lo hi il show ?thesis by simp
  next
    case False
    then have a1: "a < 1" by simp
    define y where "y = 1 / a"
    have y1: "1 < y" using assms a1 by (simp add: y_def)
    define c where "c = \<lceil>y\<rceil>"
    have cy: "of_int c - 1 < y" "y \<le> of_int c" unfolding c_def by linarith+
    have c2: "2 \<le> c"
    proof -
      have "1 < real_of_int c" using y1 cy(2) by linarith
      then have "1 < c" by linarith
      then show ?thesis by simp
    qed
    then have cpos: "0 < c - 1" by simp
    define k where "k = bitlen (c - 1)"
    from bitlen_bounds[OF cpos] have b: "2 ^ nat (k - 1) \<le> c - 1" "c - 1 < 2 ^ nat k"
      by (simp_all add: k_def)
    have k1: "1 \<le> k"
    proof (rule ccontr)
      assume "\<not> 1 \<le> k"
      then have "nat k = 0" by simp
      with b(2) cpos show False by simp
    qed
    have il: "ilog2 a = - k" using False by (simp add: ilog2_def y_def c_def k_def)
    have "c \<le> 2 ^ nat k" using b(2) by simp
    then have "real_of_int c \<le> of_int (2 ^ nat k)" by (simp only: of_int_le_iff)
    also have "\<dots> = 2 powi k" using k1 by (simp add: power_int_def)
    finally have "y \<le> 2 powi k" using cy(2) by linarith
    then have "1 / a \<le> 2 powi k" by (simp add: y_def)
    then have "1 \<le> a * 2 powi k" using assms by (simp add: field_simps)
    moreover have "(0::real) < 2 powi k" by simp
    ultimately have "1 / 2 powi k \<le> a" by (simp only: pos_divide_le_eq)
    moreover have "1 / 2 powi k = (2::real) powi (- k)"
      by (simp only: power_int_minus inverse_eq_divide)
    ultimately have lo: "2 powi (- k) \<le> a" by simp
    have "(2::real) powi (k - 1) = of_int (2 ^ nat (k - 1))" using k1 by (simp add: power_int_def)
    also have "\<dots> \<le> of_int (c - 1)" using b(1) by (simp only: of_int_le_iff)
    also have "\<dots> < y" using cy(1) by simp
    finally have "2 powi (k - 1) < 1 / a" by (simp add: y_def)
    then have "a * 2 powi (k - 1) < 1" using assms by (simp add: field_simps)
    moreover have P: "(0::real) < 2 powi (k - 1)" by simp
    ultimately have "a < 1 / 2 powi (k - 1)" by (simp only: pos_less_divide_eq)
    also have "1 / 2 powi (k - 1) = (2::real) powi (- (k - 1))"
      by (simp only: power_int_minus inverse_eq_divide)
    also have "- (k - 1) = - k + 1" by simp
    finally have hi: "a < 2 powi (- k + 1)" .
    from lo hi il show ?thesis by simp
  qed
  then show "2 powi (ilog2 a) \<le> a" and "a < 2 powi (ilog2 a + 1)" by simp_all
qed

lemma ilog2_unique:
  assumes "2 powi k \<le> a" "a < 2 powi (k + 1)"
  shows "ilog2 a = k"
proof -
  have "(0::real) < 2 powi k" by simp
  with assms(1) have pos: "0 < a" by linarith
  from ilog2_bounds[OF pos] have b: "2 powi (ilog2 a) \<le> a" "a < 2 powi (ilog2 a + 1)" .
  have "\<not> ilog2 a + 1 \<le> k"
  proof
    assume "ilog2 a + 1 \<le> k"
    then have "(2::real) powi (ilog2 a + 1) \<le> 2 powi k" by (intro power_int_increasing) simp_all
    with b(2) assms(1) show False by linarith
  qed
  moreover have "\<not> k + 1 \<le> ilog2 a"
  proof
    assume "k + 1 \<le> ilog2 a"
    then have "(2::real) powi (k + 1) \<le> 2 powi (ilog2 a)" by (intro power_int_increasing) simp_all
    with b(1) assms(2) show False by linarith
  qed
  ultimately show ?thesis by linarith
qed

text \<open>The rounding of a number whose binade is known.\<close>

lemma round_ieee_binade:
  assumes "2 powi k \<le> \<bar>x\<bar>" "\<bar>x\<bar> < 2 powi (k + 1)"
  shows "round_ieee p emin x =
    of_int (rint (x / 2 powi (max k emin - (int p - 1)))) * 2 powi (max k emin - (int p - 1))"
proof -
  have pos: "(0::real) < 2 powi k" by simp
  have "x \<noteq> 0"
  proof
    assume "x = 0"
    with assms(1) have "(2::real) powi k \<le> 0" by simp
    with pos show False by linarith
  qed
  moreover have "ilog2 \<bar>x\<bar> = k" using assms by (rule ilog2_unique)
  ultimately show ?thesis by (simp add: round_ieee_def Let_def)
qed

lemma powi_split: "(2::real) powi (e + 1) = 2 ^ p * 2 powi (e - (int p - 1))"
proof -
  have "(2::real) powi (e + 1) = 2 powi (int p + (e - (int p - 1)))" by simp
  also have "\<dots> = 2 powi (int p) * 2 powi (e - (int p - 1))"
    by (rule power_int_add) simp
  finally show ?thesis by simp
qed

lemma powi_split': "(2::real) powi e = 2 ^ (p - 1) * 2 powi (e - (int p - 1))" if "1 \<le> p"
proof -
  have "(2::real) powi e = 2 powi (int (p - 1) + (e - (int p - 1)))" using that by simp
  also have "\<dots> = 2 powi (int (p - 1)) * 2 powi (e - (int p - 1))"
    by (rule power_int_add) simp
  finally show ?thesis by simp
qed

text \<open>
  \<open>round_ieee\<close> does round to nearest on the grid of the format: the result is a whole
  multiple of the spacing \<open>q\<close> of the binade, within half a spacing of \<open>x\<close>, with a
  significand of at most \<open>p\<close> bits (or \<open>2 ^ p\<close>, the first number of the next binade) and,
  above the subnormal range, of exactly \<open>p\<close> bits.
\<close>

lemma round_ieee_nearest:
  fixes x :: real and p :: nat and emin :: int
  assumes "x \<noteq> 0"
  defines "q \<equiv> 2 powi (max (ilog2 \<bar>x\<bar>) emin - (int p - 1))"
  shows "round_ieee p emin x = of_int (rint (x / q)) * q"
    and "\<bar>round_ieee p emin x - x\<bar> \<le> q / 2"
    and "\<bar>rint (x / q)\<bar> \<le> 2 ^ p"
    and "emin \<le> ilog2 \<bar>x\<bar> \<Longrightarrow> 1 \<le> p \<Longrightarrow> 2 ^ (p - 1) \<le> \<bar>rint (x / q)\<bar>"
proof -
  have qpos: "0 < q" by (simp add: q_def)
  show eq: "round_ieee p emin x = of_int (rint (x / q)) * q"
    using assms(1) by (simp add: round_ieee_def Let_def q_def)
  have "\<bar>of_int (rint (x / q)) - x / q\<bar> \<le> 1/2" by (rule rint_nearest)
  then have "\<bar>of_int (rint (x / q)) - x / q\<bar> * q \<le> 1/2 * q"
    using qpos by (intro mult_right_mono) simp_all
  moreover have "\<bar>of_int (rint (x / q)) - x / q\<bar> * q = \<bar>of_int (rint (x / q)) * q - x\<bar>"
  proof -
    have "\<bar>of_int (rint (x / q)) - x / q\<bar> * q = \<bar>(of_int (rint (x / q)) - x / q) * q\<bar>"
      using qpos by (simp add: abs_mult)
    also have "(of_int (rint (x / q)) - x / q) * q = of_int (rint (x / q)) * q - x"
      using qpos by (simp add: field_simps)
    finally show ?thesis .
  qed
  ultimately show "\<bar>round_ieee p emin x - x\<bar> \<le> q / 2" by (simp add: eq)
  have pos: "0 < \<bar>x\<bar>" using assms(1) by simp
  define k where "k = ilog2 \<bar>x\<bar>"
  from ilog2_bounds[OF pos] have b: "2 powi k \<le> \<bar>x\<bar>" "\<bar>x\<bar> < 2 powi (k + 1)"
    by (simp_all add: k_def)
  have "(2::real) powi (k + 1) \<le> 2 powi (max k emin + 1)"
    by (intro power_int_increasing) simp_all
  also have "\<dots> = 2 ^ p * q" unfolding q_def k_def by (rule powi_split)
  finally have "\<bar>x\<bar> < 2 ^ p * q" using b(2) by linarith
  then have hi: "\<bar>x\<bar> / q < 2 ^ p" using qpos by (simp add: field_simps)
  have ax: "\<bar>x / q\<bar> = \<bar>x\<bar> / q" using qpos by simp
  have "\<bar>x / q\<bar> < 2 ^ p" using hi by (simp only: ax)
  then have "x / q \<le> 2 ^ p" "- (2 ^ p) \<le> x / q" by linarith+
  then have "x / q \<le> of_int (2 ^ p)" "of_int (- (2 ^ p)) \<le> x / q" by simp_all
  then have "rint (x / q) \<le> 2 ^ p" "- (2 ^ p) \<le> rint (x / q)"
    by (auto intro: rint_le_int rint_mono_int)
  then show "\<bar>rint (x / q)\<bar> \<le> 2 ^ p" by simp
  show "2 ^ (p - 1) \<le> \<bar>rint (x / q)\<bar>" if n: "emin \<le> ilog2 \<bar>x\<bar>" and p: "1 \<le> p"
  proof -
    have "max k emin = k" using n by (simp add: k_def)
    then have "(2::real) powi k = 2 ^ (p - 1) * q"
      unfolding q_def k_def[symmetric] using powi_split'[OF p, of k] by simp
    with b(1) have lo: "2 ^ (p - 1) \<le> \<bar>x\<bar> / q" using qpos by (simp add: field_simps)
    show ?thesis
    proof (cases "0 \<le> x")
      case True
      then have "of_int (2 ^ (p - 1)) \<le> x / q" using lo by simp
      then have "2 ^ (p - 1) \<le> rint (x / q)" by (rule rint_mono_int)
      then show ?thesis by simp
    next
      case False
      then have "x / q \<le> of_int (- (2 ^ (p - 1)))" using lo by (simp add: field_simps)
      then have "rint (x / q) \<le> - (2 ^ (p - 1))" by (rule rint_le_int)
      then show ?thesis by simp
    qed
  qed
qed

text \<open>Rounding keeps the sign, and keeps a number within the finite range of the format.\<close>

lemma round_ieee_nonneg: "0 \<le> round_ieee p emin x" if "0 \<le> x"
proof (cases "x = 0")
  case True
  then show ?thesis by (simp add: round_ieee_def)
next
  case False
  define q :: real where "q = 2 powi (max (ilog2 \<bar>x\<bar>) emin - (int p - 1))"
  have qpos: "0 < q" by (simp add: q_def)
  have "of_int 0 \<le> x / q" using that qpos by simp
  then have "0 \<le> rint (x / q)" by (rule rint_mono_int)
  then have "0 \<le> of_int (rint (x / q)) * q" using qpos by simp
  moreover have "round_ieee p emin x = of_int (rint (x / q)) * q"
    using False by (simp add: round_ieee_def Let_def q_def)
  ultimately show ?thesis by simp
qed

lemma rnd_nonneg: "0 \<le> rnd f x" if "0 \<le> x"
  using that by (cases f) (simp_all add: round_ieee_nonneg)

lemma round_ieee_le_largest:
  assumes z: "0 \<le> z" "z \<le> (2 ^ p - 1) * 2 powi (emax - (int p - 1))"
    and e: "emin \<le> emax" and p: "1 \<le> p"
  shows "round_ieee p emin z \<le> (2 ^ p - 1) * 2 powi (emax - (int p - 1))"
proof (cases "z = 0")
  case True
  have "(1::real) \<le> 2 ^ p" by simp
  then show ?thesis using True by (simp add: round_ieee_def)
next
  case False
  with z(1) have pos: "0 < \<bar>z\<bar>" "\<bar>z\<bar> = z" by simp_all
  define k where "k = ilog2 \<bar>z\<bar>"
  from ilog2_bounds[OF pos(1)] have b: "2 powi k \<le> z" "z < 2 powi (k + 1)"
    by (simp_all add: k_def pos(2))
  define Q :: real where "Q = 2 powi (emax - (int p - 1))"
  have Qpos: "0 < Q" by (simp add: Q_def)
  have top: "(2::real) powi (emax + 1) = 2 ^ p * Q" unfolding Q_def by (rule powi_split)
  have "z \<le> (2 ^ p - 1) * Q" using z(2) by (simp add: Q_def)
  also have "\<dots> < 2 ^ p * Q" using Qpos by (simp add: algebra_simps)
  finally have "z < 2 powi (emax + 1)" by (simp add: top)
  with b(1) have lt: "(2::real) powi k < 2 powi (emax + 1)" by linarith
  have kle: "k \<le> emax"
  proof (rule ccontr)
    assume "\<not> k \<le> emax"
    then have "emax + 1 \<le> k" by simp
    then have "(2::real) powi (emax + 1) \<le> 2 powi k" by (intro power_int_increasing) simp_all
    with lt show False by linarith
  qed
  define ex where "ex = max k emin"
  have exle: "ex \<le> emax" "k \<le> ex" using kle e by (simp_all add: ex_def)
  define q :: real where "q = 2 powi (ex - (int p - 1))"
  have qpos: "0 < q" by (simp add: q_def)
  have r: "round_ieee p emin z = of_int (rint (z / q)) * q"
    using False by (simp add: round_ieee_def Let_def q_def ex_def k_def)
  have "(2::real) powi (k + 1) \<le> 2 powi (ex + 1)"
    using exle(2) by (intro power_int_increasing) simp_all
  also have "\<dots> = 2 ^ p * q" unfolding q_def by (rule powi_split)
  finally have "z < 2 ^ p * q" using b(2) by linarith
  then have "z / q \<le> of_int (2 ^ p)" using qpos by (simp add: field_simps)
  then have r1: "rint (z / q) \<le> 2 ^ p" by (rule rint_le_int)
  show ?thesis
  proof (cases "ex = emax")
    case True
    then have "q = Q" by (simp add: q_def Q_def)
    with z(2) have "z \<le> (2 ^ p - 1) * q" by (simp add: Q_def)
    then have "z / q \<le> of_int (2 ^ p - 1)" using qpos by (simp add: field_simps)
    then have "rint (z / q) \<le> 2 ^ p - 1" by (rule rint_le_int)
    then have "real_of_int (rint (z / q)) \<le> real_of_int (2 ^ p - 1)"
      by (simp only: of_int_le_iff)
    then have "real_of_int (rint (z / q)) \<le> 2 ^ p - 1" by simp
    then have "of_int (rint (z / q)) * q \<le> (2 ^ p - 1) * q"
      using qpos by (intro mult_right_mono) simp_all
    then show ?thesis using r \<open>q = Q\<close> by (simp add: Q_def)
  next
    case False
    with exle(1) have "ex + 1 \<le> emax" by simp
    have "real_of_int (rint (z / q)) \<le> real_of_int (2 ^ p)" using r1
      by (simp only: of_int_le_iff)
    then have "real_of_int (rint (z / q)) \<le> 2 ^ p" by simp
    then have "of_int (rint (z / q)) * q \<le> 2 ^ p * q"
      using qpos by (intro mult_right_mono) simp_all
    also have "\<dots> = 2 powi (ex + 1)" unfolding q_def by (rule powi_split[symmetric])
    also have "\<dots> \<le> 2 powi emax" using \<open>ex + 1 \<le> emax\<close>
      by (intro power_int_increasing) simp_all
    also have "\<dots> = 2 ^ (p - 1) * Q" unfolding Q_def using p by (rule powi_split')
    also have "\<dots> \<le> (2 ^ p - 1) * Q"
    proof -
      have "(2::real) ^ p = 2 * 2 ^ (p - 1)" using p by (cases p) simp_all
      moreover have "(1::real) \<le> 2 ^ (p - 1)" by simp
      ultimately have "(2::real) ^ (p - 1) \<le> 2 ^ p - 1" by linarith
      then show ?thesis using Qpos by (intro mult_right_mono) simp_all
    qed
    finally show ?thesis using r by (simp add: Q_def)
  qed
qed

lemma rnd_in_range: "\<not> huge f (rnd f z)" if "0 \<le> z" "\<not> huge f z"
proof (cases f)
  case Exact
  then show ?thesis by simp
next
  case Binary32
  have "z \<le> (2 ^ 24 - 1) * 2 powi (127 - (int 24 - 1))" using that by (simp add: Binary32)
  from round_ieee_le_largest[OF that(1) this, of "- 126"] round_ieee_nonneg[OF that(1), of 24 "- 126"]
  show ?thesis by (simp add: Binary32)
next
  case Binary64
  have "z \<le> (2 ^ 53 - 1) * 2 powi (1023 - (int 53 - 1))" using that by (simp add: Binary64)
  from round_ieee_le_largest[OF that(1) this, of "- 1022"] round_ieee_nonneg[OF that(1), of 53 "- 1022"]
  show ?thesis by (simp add: Binary64)
qed

lemma fl_Exact: "fl Exact x = Fin x"
  by (simp add: fl_def)

lemma fl_0: "fl f 0 = Fin 0"
  by (cases f) (simp_all add: fl_def round_ieee_def)

lemma fl_not_NaN: "fl f x \<noteq> NaN"
  by (simp add: fl_def Let_def)

lemma fl_in_range: "\<exists>r. fl f z = Fin r \<and> 0 \<le> r \<and> \<not> huge f r" if "0 \<le> z" "\<not> huge f z"
  using rnd_in_range[OF that] rnd_nonneg[OF that(1), of f] by (simp add: fl_def Let_def)

lemma huge_mono: "\<not> huge f z" if "\<not> huge f y" "\<bar>z\<bar> \<le> \<bar>y\<bar>"
  using that by (cases f) simp_all

text \<open>
  The doubles that the rounded runs below meet. \<open>1 - 10 ^ 20\<close> lies between the
  neighbouring doubles \<open>- 10 ^ 20\<close> and \<open>- 10 ^ 20 + 2 ^ 14\<close> and rounds to the former;
  \<open>2 ^ 1023\<close> is a double and \<open>2 ^ 1024\<close> is beyond the largest one.
\<close>

lemmas round_eval = round_ieee_def ilog2_def rint_def Let_def compute_bitlen

lemma fl64_1: "fl Binary64 1 = Fin 1"
  by (simp add: fl_def round_eval)

lemma fl64_m1: "fl Binary64 (- 1) = Fin (- 1)"
  by (simp add: fl_def round_eval)

lemma fl64_2: "fl Binary64 2 = Fin 2"
  by (simp add: fl_def round_eval)

lemma fl64_half: "fl Binary64 (1/2) = Fin (1/2)"
  by (simp add: fl_def round_eval)

lemma fl64_1e20: "fl Binary64 100000000000000000000 = Fin 100000000000000000000"
  by (simp add: fl_def round_eval)

lemma fl64_m1e20: "fl Binary64 (- 100000000000000000000) = Fin (- 100000000000000000000)"
  by (simp add: fl_def round_eval)

lemma fl64_2e20: "fl Binary64 200000000000000000000 = Fin 200000000000000000000"
  by (simp add: fl_def round_eval)

lemma fl64_m2e20: "fl Binary64 (- 200000000000000000000) = Fin (- 200000000000000000000)"
  by (simp add: fl_def round_eval)

lemma fl64_absorb: "fl Binary64 (- 99999999999999999999) = Fin (- 100000000000000000000)"
  by (simp add: fl_def round_eval)

lemmas fl64_simps = fl_0 fl64_1 fl64_m1 fl64_2 fl64_half fl64_1e20 fl64_m1e20 fl64_2e20
  fl64_m2e20 fl64_absorb

lemma fl64_2p1023: "fl Binary64 (2 ^ 1023) = Fin (2 ^ 1023)"
proof -
  have "round_ieee 53 (- 1022) (2 ^ 1023) = 2 ^ 1023"
    by (subst round_ieee_binade[of 1023]) (simp_all add: rint_of_int rint_def)
  then show ?thesis by (simp add: fl_def)
qed

lemma fl64_m2p1023: "fl Binary64 (- (2 ^ 1023)) = Fin (- (2 ^ 1023))"
proof -
  have "round_ieee 53 (- 1022) (- (2 ^ 1023)) = - (2 ^ 1023)"
    by (subst round_ieee_binade[of 1023]) (simp_all add: rint_def)
  then show ?thesis by (simp add: fl_def)
qed

lemma fl64_overflow: "fl Binary64 (- (2 ^ 1024)) = NegInf"
proof -
  have "round_ieee 53 (- 1022) (- (2 ^ 1024)) = - (2 ^ 1024)"
    by (subst round_ieee_binade[of 1024]) (simp_all add: rint_def)
  then show ?thesis by (simp add: fl_def)
qed


lemma pi64: "rnd Binary64 Math_PI = 7074237752028440 / 2 ^ 51"
  by (simp add: Math_PI_def round_eval)

lemma literals_binary32:
  "rnd Binary32 (rnd Binary64 Math_TAU) = rnd Binary32 Math_TAU"
  "rnd Binary32 (rnd Binary64 Math_PI) = rnd Binary32 Math_PI"
  by (simp_all add: Math_TAU_def Math_PI_def round_eval)

section \<open>Remainders and angles\<close>


text \<open>
  For a positive divisor \<open>fmod\<close> returns \<open>x\<close> less a whole multiple of \<open>y\<close>, smaller than
  \<open>y\<close> in magnitude and with the sign of \<open>x\<close>.
\<close>

lemma fmod_pos:
  assumes "0 < y"
  shows "\<exists>n r. fmod (Fin x) (Fin y) = Fin r \<and> r = x - of_int n * y \<and> \<bar>r\<bar> < y
           \<and> (0 \<le> x \<longrightarrow> 0 \<le> r) \<and> (x \<le> 0 \<longrightarrow> r \<le> 0)"
proof (cases "0 \<le> x")
  case True
  define n where "n = \<lfloor>x / y\<rfloor>"
  have q: "0 \<le> x / y" using True assms by simp
  have f: "fmod (Fin x) (Fin y) = Fin (x - of_int n * y)"
    using assms q by (simp add: trunc_def n_def)
  have "of_int n \<le> x / y" "x / y < of_int n + 1" unfolding n_def by linarith+
  then have "of_int n * y \<le> x" "x < (of_int n + 1) * y"
    using assms by (simp_all add: field_simps)
  then have b: "0 \<le> x - of_int n * y" "x - of_int n * y < y"
    by (simp_all add: algebra_simps)
  have "x - of_int n * y \<le> 0" if "x \<le> 0"
  proof -
    from that True have "x = 0" by simp
    then show ?thesis by (simp add: n_def)
  qed
  with f b show ?thesis by (intro exI[of _ n] exI[of _ "x - of_int n * y"]) auto
next
  case False
  define n where "n = \<lceil>x / y\<rceil>"
  have q: "\<not> 0 \<le> x / y" using False assms by (simp add: field_simps)
  have f: "fmod (Fin x) (Fin y) = Fin (x - of_int n * y)"
    using assms q by (simp add: trunc_def n_def)
  have "of_int n - 1 < x / y" "x / y \<le> of_int n" unfolding n_def by linarith+
  then have "(of_int n - 1) * y < x" "x \<le> of_int n * y"
    using assms by (simp_all add: field_simps)
  then have "- y < x - of_int n * y" "x - of_int n * y \<le> 0"
    by (simp_all add: algebra_simps)
  with f False show ?thesis by (intro exI[of _ n] exI[of _ "x - of_int n * y"]) auto
qed













text \<open>
  Claim C10, as the code has it. For every finite \<open>x\<close> and every positive \<open>y\<close> within
  the finite range of the format, \<open>fposmodp x y\<close> is a finite number and at least 0, in
  every format: a negative remainder is above \<open>- y\<close>, and rounding its sum with \<open>y\<close>
  keeps the sign.
\<close>

theorem fposmodp_nonneg:
  "0 < p_y \<and> \<not> huge f p_y \<longrightarrow>
     (\<exists>r. fposmodp f (Fin p_x) (Fin p_y) = Fin r \<and> 0 \<le> r)"
proof
  assume a: "0 < p_y \<and> \<not> huge f p_y"
  then have y: "0 < p_y" and h: "\<not> huge f p_y" by simp_all
  from fmod_pos[OF y, of p_x] obtain r where
    r: "fmod (Fin p_x) (Fin p_y) = Fin r" "\<bar>r\<bar> < p_y" by blast
  define v where "v = (if r < 0 then fl f (r + p_y) else Fin r)"
  have v: "\<exists>s. v = Fin s \<and> 0 \<le> s \<and> \<not> huge f s"
  proof (cases "r < 0")
    case True
    then have "0 \<le> r + p_y" "\<bar>r + p_y\<bar> \<le> \<bar>p_y\<bar>" using r(2) by linarith+
    then have "0 \<le> r + p_y" "\<not> huge f (r + p_y)" using huge_mono[OF h] by simp_all
    from fl_in_range[OF this] True show ?thesis by (simp add: v_def)
  next
    case False
    then have "\<bar>r\<bar> \<le> \<bar>p_y\<bar>" using r(2) by linarith
    then have "\<not> huge f r" using huge_mono[OF h] by simp
    with False show ?thesis by (simp add: v_def)
  qed
  then obtain s where s: "v = Fin s" "0 \<le> s" "\<not> huge f s" by blast
  have e: "fposmodp f (Fin p_x) (Fin p_y) = ieee_add f v (Fin 0)"
    by (simp add: fposmodp_def r(1) v_def del: fmod.simps)
  from fl_in_range[OF s(2,3)] show "\<exists>r. fposmodp f (Fin p_x) (Fin p_y) = Fin r \<and> 0 \<le> r"
    by (auto simp: e s(1))
qed

theorem fposmodp_nonneg_witness:
  "(0::real) < 3 \<and> \<not> huge Binary64 3 \<and> fposmodp Binary64 (Fin (- 7)) (Fin 3) = Fin 2
   \<and> (0::real) \<le> 2"
proof -
  have "fposmodp Binary64 (Fin (- 7)) (Fin 3) = Fin 2"
    by (simp add: fposmodp_def trunc_def fl_def round_eval)
  with fposmodp_nonneg[of 3 Binary64 "- 7"] show ?thesis by simp
qed

text \<open>
  The claim as stated covers negative divisors and every scalar \<open>x\<close>. For a negative
  divisor the remainder of a negative \<open>x\<close> is negative and adding \<open>y\<close> lowers it further:
  \<open>fposmodp (- 1) (- 3)\<close> is \<open>- 4\<close>. For an infinite \<open>x\<close> the remainder is NaN, which is
  the result.
\<close>

theorem fposmodp_negative_divisor:
  "fposmodp Binary64 (Fin (- 1)) (Fin (- 3)) = Fin (- 4) \<and> (- 4 :: real) < 0
   \<and> fposmodp Binary64 PosInf (Fin 3) = NaN"
  by (simp add: fposmodp_def trunc_def fl_def round_eval)

text \<open>
  The result is not always below \<open>y\<close>: the sum of a tiny negative remainder and \<open>y\<close>
  rounds to \<open>y\<close>.
\<close>

lemma fposmodp_reaches_divisor:
  "fposmodp Binary64 (Fin (rnd Binary64 (- 0.00000000000000000001))) (Fin 3) = Fin 3"
  by (simp add: fposmodp_def trunc_def fl_def round_eval)

section \<open>Barry-Goldman interpolation\<close>

lemmas ratio_defs = ratio_a1_def ratio_a2_def ratio_a3_def ratio_b1_def ratio_b2_def

text \<open>Each of the five guarded ratios has a value: its division is not by zero.\<close>

lemma ieee_neg_zero: "ieee_eq (ieee_neg p) (Fin 0) = ieee_eq p (Fin 0)"
  by (cases p) simp_all

lemma ratio_a1_Some: "\<exists>r. ratio_a1 f t p = Some r"
  by (simp add: ratio_a1_def fdiv_def ieee_neg_zero)

lemma ratio_a2_Some: "\<exists>r. ratio_a2 f t p = Some r"
  by (simp add: ratio_a2_def fdiv_def)

lemma ratio_a3_Some: "\<exists>r. ratio_a3 f t p q = Some r"
  by (simp add: ratio_a3_def fdiv_def)

lemma ratio_b1_Some: "\<exists>r. ratio_b1 f t p q = Some r"
  by (simp add: ratio_b1_def fdiv_def)

lemma ratio_b2_Some: "\<exists>r. ratio_b2 f t p = Some r"
  by (simp add: ratio_b2_def fdiv_def)

lemma cubic_interpolate_in_time_Some:
  "\<exists>r. cubic_interpolate_in_time f p_from p_to p_pre p_post p_weight p_to_t p_pre_t p_post_t
          = Some r"
proof -
  define t' where "t' = lerp f (Fin 0) p_to_t p_weight"
  obtain w1 where w1: "ratio_a1 f t' p_pre_t = Some w1" using ratio_a1_Some by blast
  obtain w2 where w2: "ratio_a2 f t' p_to_t = Some w2" using ratio_a2_Some by blast
  obtain w3 where w3: "ratio_a3 f t' p_to_t p_post_t = Some w3"
    using ratio_a3_Some by blast
  obtain w4 where w4: "ratio_b1 f t' p_to_t p_pre_t = Some w4"
    using ratio_b1_Some by blast
  obtain w5 where w5: "ratio_b2 f t' p_post_t = Some w5" using ratio_b2_Some by blast
  show ?thesis
    by (simp add: cubic_interpolate_in_time_def Let_def t'_def[symmetric] w1 w2 w3 w4 w5)
qed

text \<open>
  On finite arguments in exact arithmetic, every blend and every ratio is a finite number.
\<close>

lemma lerp_Exact: "lerp Exact (Fin a) (Fin b) (Fin t) = Fin (a + t * (b - a))"
  by (simp add: lerp_def ieee_sub_def fl_Exact)

lemma ratio_a1_Exact:
  "ratio_a1 Exact (Fin t) (Fin p) = Some (Fin (if p = 0 then 0 else (t - p) / - p))"
  by (simp add: ratio_a1_def fdiv_def ieee_sub_def fl_Exact)

lemma ratio_a2_Exact:
  "ratio_a2 Exact (Fin t) (Fin p) = Some (Fin (if p = 0 then 1/2 else t / p))"
  by (simp add: ratio_a2_def fdiv_def ieee_sub_def fl_Exact)

lemma ratio_a3_Exact:
  "ratio_a3 Exact (Fin t) (Fin p) (Fin q) =
     Some (Fin (if q - p = 0 then 1 else (t - p) / (q - p)))"
  by (simp add: ratio_a3_def fdiv_def ieee_sub_def fl_Exact)

lemma ratio_b1_Exact:
  "ratio_b1 Exact (Fin t) (Fin p) (Fin q) =
     Some (Fin (if p - q = 0 then 0 else (t - q) / (p - q)))"
  by (simp add: ratio_b1_def fdiv_def ieee_sub_def fl_Exact)

lemma ratio_b2_Exact:
  "ratio_b2 Exact (Fin t) (Fin p) = Some (Fin (if p = 0 then 1 else t / p))"
  by (simp add: ratio_b2_def fdiv_def ieee_sub_def fl_Exact)

lemmas cubic_Exact = cubic_interpolate_in_time_def Let_def lerp_Exact ratio_a1_Exact
  ratio_a2_Exact ratio_a3_Exact ratio_b1_Exact ratio_b2_Exact

lemma cubic_interpolate_in_time_Exact_Fin:
  "\<exists>r. cubic_interpolate_in_time Exact (Fin p_from) (Fin p_to) (Fin p_pre) (Fin p_post)
          (Fin p_weight) (Fin p_to_t) (Fin p_pre_t) (Fin p_post_t) = Some (Fin r)"
  by (simp only: cubic_Exact bind.bind_lunit) blast

lemma cubic_all_zero:
  "cubic_interpolate_in_time f p_from p_to p_pre p_post p_weight (Fin 0) (Fin 0) (Fin 0) =
     Some (lerp f (lerp f (lerp f p_pre p_from (Fin 0)) (lerp f p_from p_to (Fin (1/2))) (Fin 0))
                  (lerp f (lerp f p_from p_to (Fin (1/2))) (lerp f p_to p_post (Fin 1)) (Fin 1))
                  (Fin (1/2)))"
  by (simp add: cubic_interpolate_in_time_def ratio_defs Let_def ieee_sub_def fl_0)

lemma cubic_pre_t_zero:
  "p_to_t \<noteq> 0 \<Longrightarrow>
   cubic_interpolate_in_time Exact (Fin p_from) (Fin p_to) (Fin p_pre) (Fin p_post)
      (Fin 0) (Fin p_to_t) (Fin 0) (Fin p_post_t) = Some (Fin p_pre)"
  by (simp add: cubic_Exact)

lemma cubic_to_t_zero:
  "p_pre_t \<noteq> 0 \<Longrightarrow> p_post_t \<noteq> 0 \<Longrightarrow>
   cubic_interpolate_in_time Exact (Fin p_from) (Fin p_to) (Fin p_pre) (Fin p_post)
      (Fin p_weight) (Fin 0) (Fin p_pre_t) (Fin p_post_t) = Some (Fin ((p_from + p_to) / 2))"
  by (simp add: cubic_Exact field_simps)

lemma cubic_post_t_to_t:
  "p_to_t \<noteq> 0 \<Longrightarrow>
   cubic_interpolate_in_time Exact (Fin p_from) (Fin p_to) (Fin p_pre) (Fin p_post)
      (Fin 1) (Fin p_to_t) (Fin p_pre_t) (Fin p_to_t) = Some (Fin p_post)"
  by (simp add: cubic_Exact)

text \<open>
  Claim C3, as the code has it. In every format and for all arguments, NaN and the
  infinities included, \<open>cubic_interpolate_in_time\<close> divides by no zero denominator. With
  all three times zero every ratio is its constant: the result is the blend with ratios
  0 for \<open>a1\<close>, one half for \<open>a2\<close>, 1 for \<open>a3\<close>, 0 for \<open>b1\<close>, 1 for \<open>b2\<close> and one half for
  the last blend. In exact arithmetic on finite arguments the constants show in the
  result: with \<open>pre_t = 0\<close> and weight 0 it is \<open>pre\<close>, with \<open>to_t = 0\<close> it is the mean of
  \<open>from\<close> and \<open>to\<close>, with \<open>post_t = to_t\<close> and weight 1 it is \<open>post\<close>; and the result is
  always a finite number.
\<close>

theorem cubic_interpolate_in_time_total:
  "(\<exists>r. cubic_interpolate_in_time f p_from p_to p_pre p_post p_weight p_to_t p_pre_t p_post_t
          = Some r)
   \<and> cubic_interpolate_in_time f p_from p_to p_pre p_post p_weight (Fin 0) (Fin 0) (Fin 0) =
       Some (lerp f
               (lerp f (lerp f p_pre p_from (Fin 0)) (lerp f p_from p_to (Fin (1/2))) (Fin 0))
               (lerp f (lerp f p_from p_to (Fin (1/2))) (lerp f p_to p_post (Fin 1)) (Fin 1))
               (Fin (1/2)))
   \<and> (y_to_t \<noteq> 0 \<longrightarrow>
        cubic_interpolate_in_time Exact (Fin x_from) (Fin x_to) (Fin x_pre) (Fin x_post)
          (Fin 0) (Fin y_to_t) (Fin 0) (Fin y_post_t) = Some (Fin x_pre))
   \<and> (y_pre_t \<noteq> 0 \<and> y_post_t \<noteq> 0 \<longrightarrow>
        cubic_interpolate_in_time Exact (Fin x_from) (Fin x_to) (Fin x_pre) (Fin x_post)
          (Fin x_weight) (Fin 0) (Fin y_pre_t) (Fin y_post_t) = Some (Fin ((x_from + x_to) / 2)))
   \<and> (y_to_t \<noteq> 0 \<longrightarrow>
        cubic_interpolate_in_time Exact (Fin x_from) (Fin x_to) (Fin x_pre) (Fin x_post)
          (Fin 1) (Fin y_to_t) (Fin y_pre_t) (Fin y_to_t) = Some (Fin x_post))
   \<and> (\<exists>r. cubic_interpolate_in_time Exact (Fin x_from) (Fin x_to) (Fin x_pre) (Fin x_post)
          (Fin x_weight) (Fin y_to_t) (Fin y_pre_t) (Fin y_post_t) = Some (Fin r))"
  using cubic_interpolate_in_time_Some[of f p_from p_to p_pre p_post p_weight p_to_t p_pre_t
      p_post_t]
    cubic_all_zero[of f p_from p_to p_pre p_post p_weight]
    cubic_pre_t_zero[of y_to_t x_from x_to x_pre x_post y_post_t]
    cubic_to_t_zero[of y_pre_t y_post_t x_from x_to x_pre x_post x_weight]
    cubic_post_t_to_t[of y_to_t x_from x_to x_pre x_post y_pre_t]
    cubic_interpolate_in_time_Exact_Fin[of x_from x_to x_pre x_post x_weight y_to_t y_pre_t
      y_post_t]
  by blast

theorem cubic_interpolate_in_time_total_witness:
  "(1::real) \<noteq> 0 \<and>
   cubic_interpolate_in_time Exact (Fin 1) (Fin 2) (Fin 3) (Fin 4) (Fin 0) (Fin 1) (Fin 0) (Fin 1)
     = Some (Fin 3) \<and>
   cubic_interpolate_in_time Exact (Fin 1) (Fin 2) (Fin 3) (Fin 4) (Fin (1/2)) (Fin 0) (Fin 1)
     (Fin 1) = Some (Fin ((1 + 2) / 2)) \<and>
   cubic_interpolate_in_time Exact (Fin 1) (Fin 2) (Fin 3) (Fin 4) (Fin 1) (Fin 1) (Fin 1) (Fin 1)
     = Some (Fin 4)"
  using cubic_interpolate_in_time_total[where y_to_t = 1 and y_pre_t = 1 and y_post_t = 1
      and x_from = 1 and x_to = 2 and x_pre = 3 and x_post = 4 and x_weight = "1/2"
      and f = Exact and p_from = "Fin 1" and p_to = "Fin 2" and p_pre = "Fin 3"
      and p_post = "Fin 4" and p_weight = "Fin 0" and p_to_t = "Fin 0" and p_pre_t = "Fin 0"
      and p_post_t = "Fin 0"]
  by simp

text \<open>
  The claim as stated promises a defined result on every degenerate input. In double
  precision, with all three times zero, \<open>from = pre = 2 ^ 1023\<close> and
  \<open>to = post = - 2 ^ 1023\<close>, the difference \<open>to - from\<close> of the blend \<open>a2\<close> overflows to an
  infinity, the next blends multiply it by 0 and add it to its opposite, and the result
  is NaN, with no division by zero.
\<close>

theorem cubic_interpolate_in_time_overflow:
  "cubic_interpolate_in_time Binary64 (Fin (2 ^ 1023)) (Fin (- (2 ^ 1023))) (Fin (2 ^ 1023))
      (Fin (- (2 ^ 1023))) (Fin (1/2)) (Fin 0) (Fin 0) (Fin 0) = Some NaN"
  using fl64_overflow fl64_2p1023 fl64_m2p1023
  by (simp add: cubic_all_zero lerp_def ieee_sub_def fl_0)

text \<open>
  Claim C4, as the code has it. In exact arithmetic, when \<open>pre_t\<close>, \<open>to_t\<close>,
  \<open>post_t - to_t\<close>, \<open>to_t - pre_t\<close> and \<open>post_t\<close> are all nonzero,
  \<open>cubic_interpolate_in_time\<close> returns \<open>from\<close> at weight 0 and \<open>to\<close> at weight 1.
  At weight 0 the time is 0, both \<open>a1\<close> and \<open>a2\<close> are \<open>from\<close>, hence so is \<open>b1\<close>, which
  the last blend returns. At weight 1 the time is \<open>to_t\<close>, both \<open>a2\<close> and \<open>a3\<close> are
  \<open>to\<close>, hence so is \<open>b2\<close>, which the last blend returns.
\<close>

theorem cubic_interpolate_in_time_endpoints:
  "p_pre_t \<noteq> 0 \<and> p_to_t \<noteq> 0 \<and> p_post_t - p_to_t \<noteq> 0 \<and> p_to_t - p_pre_t \<noteq> 0
     \<and> p_post_t \<noteq> 0 \<longrightarrow>
   cubic_interpolate_in_time Exact (Fin p_from) (Fin p_to) (Fin p_pre) (Fin p_post) (Fin 0)
       (Fin p_to_t) (Fin p_pre_t) (Fin p_post_t) = Some (Fin p_from) \<and>
   cubic_interpolate_in_time Exact (Fin p_from) (Fin p_to) (Fin p_pre) (Fin p_post) (Fin 1)
       (Fin p_to_t) (Fin p_pre_t) (Fin p_post_t) = Some (Fin p_to)"
proof (intro impI conjI)
  assume nd: "p_pre_t \<noteq> 0 \<and> p_to_t \<noteq> 0 \<and> p_post_t - p_to_t \<noteq> 0 \<and> p_to_t - p_pre_t \<noteq> 0
     \<and> p_post_t \<noteq> 0"
  have t0: "lerp Exact (Fin 0) (Fin p_to_t) (Fin 0) = Fin 0"
    by (simp add: lerp_Exact)
  have a1: "ratio_a1 Exact (Fin 0) (Fin p_pre_t) = Some (Fin 1)"
    and a2: "ratio_a2 Exact (Fin 0) (Fin p_to_t) = Some (Fin 0)"
    using nd by (simp_all add: ratio_a1_Exact ratio_a2_Exact)
  show "cubic_interpolate_in_time Exact (Fin p_from) (Fin p_to) (Fin p_pre) (Fin p_post) (Fin 0)
       (Fin p_to_t) (Fin p_pre_t) (Fin p_post_t) = Some (Fin p_from)"
    by (simp add: cubic_interpolate_in_time_def Let_def t0 a1 a2 lerp_Exact ratio_a3_Exact
        ratio_b1_Exact ratio_b2_Exact)
  have t1: "lerp Exact (Fin 0) (Fin p_to_t) (Fin 1) = Fin p_to_t"
    by (simp add: lerp_Exact)
  have c2: "ratio_a2 Exact (Fin p_to_t) (Fin p_to_t) = Some (Fin 1)"
    and c3: "ratio_a3 Exact (Fin p_to_t) (Fin p_to_t) (Fin p_post_t) = Some (Fin 0)"
    using nd by (simp_all add: ratio_a2_Exact ratio_a3_Exact)
  show "cubic_interpolate_in_time Exact (Fin p_from) (Fin p_to) (Fin p_pre) (Fin p_post) (Fin 1)
       (Fin p_to_t) (Fin p_pre_t) (Fin p_post_t) = Some (Fin p_to)"
    by (simp add: cubic_interpolate_in_time_def Let_def t1 c2 c3 lerp_Exact ratio_a1_Exact
        ratio_b1_Exact ratio_b2_Exact)
qed

theorem cubic_interpolate_in_time_endpoints_witness:
  "(- 1 :: real) \<noteq> 0 \<and> (1::real) \<noteq> 0 \<and> (2::real) - 1 \<noteq> 0 \<and> (1::real) - (- 1) \<noteq> 0
     \<and> (2::real) \<noteq> 0 \<and>
   cubic_interpolate_in_time Exact (Fin 1) (Fin 0) (Fin 100000000000000000000) (Fin 0) (Fin 0)
     (Fin 1) (Fin (- 1)) (Fin 2) = Some (Fin 1) \<and>
   cubic_interpolate_in_time Exact (Fin 1) (Fin 0) (Fin 100000000000000000000) (Fin 0) (Fin 1)
     (Fin 1) (Fin (- 1)) (Fin 2) = Some (Fin 0)"
  using cubic_interpolate_in_time_endpoints[of "- 1" 1 2 1 0 100000000000000000000 0]
  by simp

text \<open>
  The claim as stated promises \<open>from\<close> and \<open>to\<close> exactly. In double precision, with the
  times \<open>pre_t = - 1\<close>, \<open>to_t = 1\<close>, \<open>post_t = 2\<close>: at weight 0 with \<open>from = 1\<close> and
  \<open>pre = 10 ^ 20\<close>, the blend \<open>a1 = pre + 1 * (from - pre)\<close> loses \<open>from\<close> to rounding and is
  0, and the result is one half; at weight 1 with \<open>from = 10 ^ 20\<close> and \<open>to = 1\<close>, the blend
  \<open>a2 = from + 1 * (to - from)\<close> loses \<open>to\<close> and the result is one half again.
\<close>

theorem cubic_interpolate_in_time_binary64_endpoint:
  "cubic_interpolate_in_time Binary64 (Fin 1) (Fin 0) (Fin 100000000000000000000) (Fin 0)
      (Fin 0) (Fin 1) (Fin (- 1)) (Fin 2) = Some (Fin (1/2))
   \<and> cubic_interpolate_in_time Binary64 (Fin 1) (Fin 0) (Fin 100000000000000000000) (Fin 0)
      (Fin 0) (Fin 1) (Fin (- 1)) (Fin 2) \<noteq> Some (Fin 1)
   \<and> cubic_interpolate_in_time Binary64 (Fin 100000000000000000000) (Fin 1) (Fin 0) (Fin 0)
      (Fin 1) (Fin 1) (Fin (- 1)) (Fin 2) = Some (Fin (1/2))
   \<and> cubic_interpolate_in_time Binary64 (Fin 100000000000000000000) (Fin 1) (Fin 0) (Fin 0)
      (Fin 1) (Fin 1) (Fin (- 1)) (Fin 2) \<noteq> Some (Fin 1)"
  by (simp add: cubic_interpolate_in_time_def ratio_defs fdiv_def lerp_def ieee_sub_def Let_def
      fl64_simps)

section \<open>Approximate comparison\<close>

text \<open>The value of \<^verbatim>\<open>0.00001f\<close>: about \<open>9.99999975e-6\<close>, below the decimal.\<close>

lemma CMP_EPSILON_val: "CMP_EPSILON = 10995116 / 2 ^ 40"
  by (simp add: CMP_EPSILON_def round_eval)

lemma CMP_EPSILON_pos: "0 < CMP_EPSILON"
  by (simp add: CMP_EPSILON_val)

lemma tolerance_max:
  "t \<noteq> NaN \<Longrightarrow> (if ieee_lt t (Fin e) then Fin e else t) = ieee_max (Fin e) t"
  by (cases t) (auto simp: ieee_max_def)

lemma is_equal_approx_ieee:
  "is_equal_approx f a b \<longleftrightarrow>
      ieee_eq a b \<or>
      ieee_lt (ieee_abs (ieee_sub f a b))
        (ieee_max (Fin CMP_EPSILON) (ieee_mul f (Fin CMP_EPSILON) (ieee_abs a)))"
proof (cases a)
  case NaN
  then show ?thesis by (simp add: is_equal_approx_def ieee_sub_def ieee_max_def)
next
  case NegInf
  then show ?thesis using CMP_EPSILON_pos
    by (cases b) (simp_all add: is_equal_approx_def ieee_sub_def ieee_max_def)
next
  case PosInf
  then show ?thesis using CMP_EPSILON_pos
    by (cases b) (simp_all add: is_equal_approx_def ieee_sub_def ieee_max_def)
next
  case (Fin x)
  have "ieee_mul f (Fin CMP_EPSILON) (ieee_abs (Fin x)) \<noteq> NaN"
    by (simp add: fl_not_NaN)
  from tolerance_max[OF this] show ?thesis
    unfolding Fin by (simp add: is_equal_approx_def Let_def del: ieee_mul.simps ieee_abs.simps)
qed

lemma is_equal_approx_fin:
  assumes "fl f (x - y) = Fin d" "fl f (CMP_EPSILON * \<bar>x\<bar>) = Fin t"
  shows "is_equal_approx f (Fin x) (Fin y) \<longleftrightarrow> x = y \<or> \<bar>d\<bar> < max CMP_EPSILON t"
  using assms by (auto simp: is_equal_approx_def ieee_sub_def Let_def max_def)

lemma is_equal_approx_1e10: "is_equal_approx Binary64 (Fin 10000000000) (Fin (10000000000 + 0.5))"
  by (simp add: is_equal_approx_def ieee_sub_def CMP_EPSILON_val fl_def round_eval)

lemma is_equal_approx_first: "is_equal_approx Binary64 (Fin 100001) (Fin 100000)"
  by (simp add: is_equal_approx_def ieee_sub_def CMP_EPSILON_val fl_def round_eval)

lemma is_equal_approx_second: "\<not> is_equal_approx Binary64 (Fin 100000) (Fin 100001)"
  by (simp add: is_equal_approx_def ieee_sub_def CMP_EPSILON_val fl_def round_eval)

lemma is_equal_approx_float_epsilon: "\<not> is_equal_approx Binary64 (Fin 100000) (Fin (rnd Binary64 100000.99999999))"
  by (simp add: is_equal_approx_def ieee_sub_def CMP_EPSILON_val fl_def round_eval)

text \<open>
  Claim C2. In either format and on all IEEE values, \<open>is_equal_approx a b\<close> holds exactly
  when \<open>a\<close> equals \<open>b\<close> or \<open>|a - b| < max(CMP_EPSILON, CMP_EPSILON * |a|)\<close>, the
  difference and the product being those of the format. For finite \<open>x\<close> and \<open>y\<close> whose
  rounded difference \<open>d\<close> and rounded tolerance product \<open>t\<close> are finite, this is \<open>x = y\<close> or
  \<open>\<bar>d\<bar> < max CMP_EPSILON t\<close> on the reals. An infinity is approximately equal to itself.
  In double precision \<open>is_equal_approx(1e10, 1e10 + 0.5)\<close> holds, and the tolerance follows
  the first operand only: 100001 is approximately equal to 100000, and 100000 is not to
  100001, nor to the double next to \<open>100000.99999999\<close>, which is within the decimal
  \<open>0.00001\<close> relative to 100000 and not within \<^verbatim>\<open>0.00001f\<close>.
\<close>

theorem is_equal_approx_iff:
  "(is_equal_approx f a b \<longleftrightarrow>
      ieee_eq a b \<or>
      ieee_lt (ieee_abs (ieee_sub f a b))
        (ieee_max (Fin CMP_EPSILON) (ieee_mul f (Fin CMP_EPSILON) (ieee_abs a))))
   \<and> (fl f (x - y) = Fin d \<and> fl f (CMP_EPSILON * \<bar>x\<bar>) = Fin t \<longrightarrow>
        (is_equal_approx f (Fin x) (Fin y) \<longleftrightarrow> x = y \<or> \<bar>d\<bar> < max CMP_EPSILON t))
   \<and> is_equal_approx f PosInf PosInf \<and> is_equal_approx f NegInf NegInf
   \<and> is_equal_approx Binary64 (Fin 10000000000) (Fin (10000000000 + 0.5))
   \<and> is_equal_approx Binary64 (Fin 100001) (Fin 100000)
   \<and> \<not> is_equal_approx Binary64 (Fin 100000) (Fin 100001)
   \<and> \<not> is_equal_approx Binary64 (Fin 100000) (Fin (rnd Binary64 100000.99999999))"
proof -
  have inf: "is_equal_approx f PosInf PosInf" "is_equal_approx f NegInf NegInf"
    by (simp_all add: is_equal_approx_def)
  from is_equal_approx_ieee[of f a b] is_equal_approx_fin[of f x y d t] inf
    is_equal_approx_1e10 is_equal_approx_first is_equal_approx_second
    is_equal_approx_float_epsilon
  show ?thesis by blast
qed

theorem is_equal_approx_iff_witness:
  "fl Binary64 (100000 - 100001) = Fin (- 1)
   \<and> fl Binary64 (CMP_EPSILON * \<bar>100000\<bar>) = Fin (8589934375 / 8589934592)
   \<and> (is_equal_approx Binary64 (Fin 100000) (Fin 100001) \<longleftrightarrow>
        (100000::real) = 100001 \<or> \<bar>- 1 :: real\<bar> < max CMP_EPSILON (8589934375 / 8589934592))"
proof -
  have h: "fl Binary64 (100000 - 100001) = Fin (- 1)"
    "fl Binary64 (CMP_EPSILON * \<bar>100000\<bar>) = Fin (8589934375 / 8589934592)"
    by (simp_all add: CMP_EPSILON_val fl_def round_eval)
  from is_equal_approx_iff[of Binary64 "Fin 0" "Fin 0" 100000 100001 "- 1"
      "8589934375 / 8589934592"] h
  show ?thesis by blast
qed

text \<open>
  Claim C6, as the code has it. \<open>is_equal_approx(0.0, 1e-7)\<close> holds, in double and in
  single precision, whatever the build: \<open>is_zero_approx\<close>, and \<open>is_equal_approx\<close> with
  first operand 0 and a second operand \<open>y\<close> of the format, compare \<open>\<bar>y\<bar>\<close> against the
  fixed \<^verbatim>\<open>CMP_EPSILON\<close>, the value \<open>10995116 / 2 ^ 40\<close> of \<^verbatim>\<open>0.00001f\<close>. The build switch
  \<^verbatim>\<open>PRECISE_MATH_CHECKS\<close> selects \<^verbatim>\<open>UNIT_EPSILON\<close> between the doubles next to
  \<open>0.00001\<close> and \<open>0.001\<close>, a constant the comparisons do not read.
\<close>

theorem is_equal_approx_fixed_epsilon:
  "is_equal_approx Binary64 (Fin 0) (Fin (rnd Binary64 0.0000001))
   \<and> is_equal_approx Binary32 (Fin 0) (Fin (rnd Binary32 0.0000001))
   \<and> (fl f (- y) = Fin (- y) \<longrightarrow>
        (is_equal_approx f (Fin 0) (Fin y) \<longleftrightarrow> \<bar>y\<bar> < 10995116 / 2 ^ 40))
   \<and> (is_zero_approx (Fin y) \<longleftrightarrow> \<bar>y\<bar> < 10995116 / 2 ^ 40)
   \<and> UNIT_EPSILON True = 5902958103587057 / 2 ^ 69
   \<and> UNIT_EPSILON False = 1152921504606847 / 2 ^ 60"
proof -
  have z64: "is_equal_approx Binary64 (Fin 0) (Fin (rnd Binary64 0.0000001))"
    by (simp add: is_equal_approx_def ieee_sub_def CMP_EPSILON_val fl_def round_eval)
  have z32: "is_equal_approx Binary32 (Fin 0) (Fin (rnd Binary32 0.0000001))"
    by (simp add: is_equal_approx_def ieee_sub_def CMP_EPSILON_val fl_def round_eval)
  have zgen: "fl f (- y) = Fin (- y) \<longrightarrow>
     (is_equal_approx f (Fin 0) (Fin y) \<longleftrightarrow> \<bar>y\<bar> < 10995116 / 2 ^ 40)"
    by (auto simp: is_equal_approx_def ieee_sub_def CMP_EPSILON_val Let_def fl_0)
  have zz: "is_zero_approx (Fin y) \<longleftrightarrow> \<bar>y\<bar> < 10995116 / 2 ^ 40"
    by (simp add: is_zero_approx_def CMP_EPSILON_val)
  have ue: "UNIT_EPSILON True = 5902958103587057 / 2 ^ 69"
    "UNIT_EPSILON False = 1152921504606847 / 2 ^ 60"
    by (simp_all add: UNIT_EPSILON_def round_eval)
  from z64 z32 zgen zz ue show ?thesis by blast
qed

theorem is_equal_approx_fixed_epsilon_witness:
  "fl Binary64 (- (1/2)) = Fin (- (1/2))
   \<and> (is_equal_approx Binary64 (Fin 0) (Fin (1/2)) \<longleftrightarrow> \<bar>1/2 :: real\<bar> < 10995116 / 2 ^ 40)"
proof -
  have h: "fl Binary64 (- (1/2)) = Fin (- (1/2))"
    by (simp add: fl_def round_eval)
  from is_equal_approx_fixed_epsilon[of Binary64 "1/2"] h show ?thesis by blast
qed

text \<open>
  The claim as stated has \<open>is_equal_approx(0.0, 1e-7)\<close> false under the precise
  configuration. The function does not depend on the configuration, and it holds: the
  double next to \<open>1e-7\<close> is below \<^verbatim>\<open>0.00001f\<close>.
\<close>

theorem is_equal_approx_zero_1e7:
  "is_equal_approx Binary64 (Fin 0) (Fin (rnd Binary64 0.0000001)) = True"
  by (simp add: is_equal_approx_def ieee_sub_def CMP_EPSILON_val fl_def round_eval)

section \<open>The static variable of \<^verbatim>\<open>fast_ftoi\<close>\<close>

text \<open>
  Claim C9 holds that no call writes state outside its arguments and its return value.
  A call of \<open>fast_ftoi\<close> stores its result in the static variable, whichever statement
  the preprocessor keeps: with the variable 0 before the call, \<open>fast_ftoi 1\<close> returns 1
  and leaves the variable 1.
\<close>

theorem fast_ftoi_writes_static:
  "fast_ftoi branch 1 \<lparr>fast_ftoi_b = 0\<rparr> = (1, \<lparr>fast_ftoi_b = 1\<rparr>)"
  by (cases branch) (simp_all add: fast_ftoi_def lrintf_def rint_def trunc_def Let_def)

end
